theory Spec2Isabelle
  imports Complex_Main "HOL-Library.Multiset"
begin

section \<open>Data model of sentimentanalysis.c\<close>

text \<open>
  The program is a single C file. A \<^verbatim>\<open>float\<close> is a value of the type \<open>cfloat\<close> below: a
  real number, an infinity or a NaN. Every arithmetic result is rounded to single
  precision, to nearest with ties to even, as IEEE 754 prescribes and as the program's
  platform does; products and sums are rounded one by one (no fused multiply-add). The
  sign of a zero is not modelled: no division of the program has a zero divisor and a
  non-zero dividend, and nothing else in it tells the two zeros apart.

  Array sizes and loop counters are C \<^verbatim>\<open>int\<close>s that are never negative in this program
  (they all derive from the \<^verbatim>\<open>size_t\<close> record count of \<^verbatim>\<open>loadDataset\<close>), so they are
  natural numbers here. An \<^verbatim>\<open>int\<close> expression whose value exceeds \<^verbatim>\<open>INT_MAX\<close> and an access
  outside an array are undefined behaviour in C; the loops over the numeric arrays return
  \<open>None\<close> there.

  The OpenACC pragmas distribute loop iterations that do not depend on each other; the
  loops are modelled in their sequential order. The timing and profiling calls and the
  progress messages have no part in the results and are left out.
\<close>

definition MAX_TOKENS :: nat where
  "MAX_TOKENS = 1024"

definition NUM_FEATURES :: nat where
  "NUM_FEATURES = 1024"

definition INT_MAX :: nat where
  "INT_MAX = 2147483647"

datatype 'a outcome = Exit int | Returns 'a

subsection \<open>Floating-point numbers\<close>

datatype cfloat = Fin real | PosInf | NegInf | NaN

text \<open>The nearest integer, the even one of the two when they are equally near.\<close>

definition round_even :: "real \<Rightarrow> int" where
  "round_even y =
     (let f = \<lfloor>y\<rfloor>; d = y - of_int f
      in if d < 1 / 2 then f else if 1 / 2 < d then f + 1 else if even f then f else f + 1)"

text \<open>
  The binade of a positive number \<open>x\<close>: the power of two \<open>p\<close> with \<open>p \<le> x < 2 * p\<close>, found by
  doubling from 1 (at most \<open>hi\<close> times) or by halving from 1 (at most \<open>lo\<close> times). The
  search stops at \<open>2 ^ - lo\<close>, the binade of the smallest normal number, which also holds
  the subnormal numbers.
\<close>

fun binade_up :: "nat \<Rightarrow> real \<Rightarrow> real \<Rightarrow> real" where
  "binade_up n p x = (if n = 0 \<or> x < 2 * p then p else binade_up (n - 1) (2 * p) x)"

declare binade_up.simps [simp del]

fun binade_down :: "nat \<Rightarrow> real \<Rightarrow> real \<Rightarrow> real" where
  "binade_down n p x = (if n = 0 \<or> p \<le> x then p else binade_down (n - 1) (p / 2) x)"

declare binade_down.simps [simp del]

definition binade :: "nat \<Rightarrow> nat \<Rightarrow> real \<Rightarrow> real" where
  "binade lo hi x = (if 1 \<le> x then binade_up hi 1 x else binade_down lo 1 x)"

text \<open>
  Rounding to \<open>prec\<close> significant bits: numbers with \<open>prec\<close> bits in the binade of \<open>x\<close> are
  the multiples of \<open>u = binade / 2 ^ (prec - 1)\<close>, and \<open>x\<close> goes to the nearest of them. A
  result of \<open>2 ^ (hi + 1)\<close> or more is an overflow.
\<close>

definition round_value :: "nat \<Rightarrow> nat \<Rightarrow> nat \<Rightarrow> real \<Rightarrow> real" where
  "round_value prec lo hi x =
     (let u = binade lo hi x / 2 ^ (prec - 1) in of_int (round_even (x / u)) * u)"

definition round_pos :: "nat \<Rightarrow> nat \<Rightarrow> nat \<Rightarrow> real \<Rightarrow> cfloat" where
  "round_pos prec lo hi x =
     (if x = 0 then Fin 0
      else if 2 ^ (hi + 1) \<le> x then PosInf
      else if 2 ^ (hi + 1) \<le> round_value prec lo hi x then PosInf
      else Fin (round_value prec lo hi x))"

fun fneg :: "cfloat \<Rightarrow> cfloat" where
  "fneg (Fin x) = Fin (- x)"
| "fneg PosInf = NegInf"
| "fneg NegInf = PosInf"
| "fneg NaN = NaN"

definition round_float :: "nat \<Rightarrow> nat \<Rightarrow> nat \<Rightarrow> real \<Rightarrow> cfloat" where
  "round_float prec lo hi x =
     (if 0 \<le> x then round_pos prec lo hi x else fneg (round_pos prec lo hi (- x)))"

text \<open>
  Single precision has 24 significant bits and exponents from -126 to 127, double
  precision 53 bits and exponents from -1022 to 1023.
\<close>

definition round32 :: "real \<Rightarrow> cfloat" where
  "round32 = round_float 24 126 127"

definition round64 :: "real \<Rightarrow> cfloat" where
  "round64 = round_float 53 1022 1023"

text \<open>
  The operations of IEEE 754 on these values, for a rounding function \<open>rd\<close>: a NaN gives a
  NaN, the infinities follow the usual rules, and a finite result is rounded.
\<close>

fun fl_add :: "(real \<Rightarrow> cfloat) \<Rightarrow> cfloat \<Rightarrow> cfloat \<Rightarrow> cfloat" where
  "fl_add rd (Fin a) (Fin b) = rd (a + b)"
| "fl_add rd NaN b = NaN"
| "fl_add rd a NaN = NaN"
| "fl_add rd PosInf NegInf = NaN"
| "fl_add rd NegInf PosInf = NaN"
| "fl_add rd PosInf b = PosInf"
| "fl_add rd NegInf b = NegInf"
| "fl_add rd a PosInf = PosInf"
| "fl_add rd a NegInf = NegInf"

fun fl_mul :: "(real \<Rightarrow> cfloat) \<Rightarrow> cfloat \<Rightarrow> cfloat \<Rightarrow> cfloat" where
  "fl_mul rd (Fin a) (Fin b) = rd (a * b)"
| "fl_mul rd NaN b = NaN"
| "fl_mul rd a NaN = NaN"
| "fl_mul rd (Fin a) b = (if a = 0 then NaN else if 0 < a then b else fneg b)"
| "fl_mul rd a (Fin b) = (if b = 0 then NaN else if 0 < b then a else fneg a)"
| "fl_mul rd PosInf b = b"
| "fl_mul rd NegInf b = fneg b"

fun fl_div :: "(real \<Rightarrow> cfloat) \<Rightarrow> cfloat \<Rightarrow> cfloat \<Rightarrow> cfloat" where
  "fl_div rd (Fin a) (Fin b) =
     (if b = 0 then (if a = 0 then NaN else if 0 < a then PosInf else NegInf) else rd (a / b))"
| "fl_div rd NaN b = NaN"
| "fl_div rd a NaN = NaN"
| "fl_div rd (Fin a) b = Fin 0"
| "fl_div rd a (Fin b) = (if 0 \<le> b then a else fneg a)"
| "fl_div rd a b = NaN"

fun fl_sqrt :: "(real \<Rightarrow> cfloat) \<Rightarrow> cfloat \<Rightarrow> cfloat" where
  "fl_sqrt rd (Fin a) = (if a < 0 then NaN else rd (sqrt a))"
| "fl_sqrt rd PosInf = PosInf"
| "fl_sqrt rd NegInf = NaN"
| "fl_sqrt rd NaN = NaN"

text \<open>The comparison \<^verbatim>\<open>a > b\<close>: false whenever an operand is a NaN.\<close>

fun fl_gt :: "cfloat \<Rightarrow> cfloat \<Rightarrow> bool" where
  "fl_gt (Fin a) (Fin b) = (b < a)"
| "fl_gt NaN b = False"
| "fl_gt a NaN = False"
| "fl_gt PosInf PosInf = False"
| "fl_gt PosInf b = True"
| "fl_gt a NegInf = (a \<noteq> NegInf)"
| "fl_gt a b = False"

definition fadd :: "cfloat \<Rightarrow> cfloat \<Rightarrow> cfloat" where
  "fadd = fl_add round32"

definition fmul :: "cfloat \<Rightarrow> cfloat \<Rightarrow> cfloat" where
  "fmul = fl_mul round32"

definition fdiv :: "cfloat \<Rightarrow> cfloat \<Rightarrow> cfloat" where
  "fdiv = fl_div round32"

text \<open>The conversions \<^verbatim>\<open>(float)n\<close> of an \<^verbatim>\<open>int\<close> and \<^verbatim>\<open>(float)d\<close> of a \<^verbatim>\<open>double\<close>.\<close>

definition int_to_float :: "int \<Rightarrow> cfloat" where
  "int_to_float n = round32 (of_int n)"

fun double_to_float :: "cfloat \<Rightarrow> cfloat" where
  "double_to_float (Fin x) = round32 x"
| "double_to_float PosInf = PosInf"
| "double_to_float NegInf = NegInf"
| "double_to_float NaN = NaN"

text \<open>
  \<^verbatim>\<open>expf\<close> of the C library, as the single-precision number nearest to the exponential.
  (An implementation may be off by one unit in the last place; the properties below
  that use \<open>expf\<close> only depend on it being monotone with values from 0 upwards, and the
  two values computed with it are far from any rounding boundary.)
\<close>

fun expf :: "cfloat \<Rightarrow> cfloat" where
  "expf (Fin x) = round32 (exp x)"
| "expf PosInf = PosInf"
| "expf NegInf = Fin 0"
| "expf NaN = NaN"

text \<open>
  \<^verbatim>\<open>typedef struct { char text[MAX_TOKENS]; int label; } Post;\<close>
  The field \<^verbatim>\<open>text\<close> is the whole character buffer, terminator and the bytes after it
  included. It is called \<open>text_buf\<close> because \<open>text\<close> is a keyword of Isabelle.
\<close>

record Post =
  text_buf :: string
  label :: int

definition NUL :: char where
  "NUL = CHR 0x00"

text \<open>
  The value of a plain \<^verbatim>\<open>char\<close> as the C expression \<^verbatim>\<open>(float)c\<close> sees it. Whether plain
  \<^verbatim>\<open>char\<close> is signed is left to the platform by the C standard (it is signed on the
  x86-64 ABI, unsigned on AArch64 and POWER); the flag \<open>char_signed\<close> says which.
\<close>

definition char_to_int :: "bool \<Rightarrow> char \<Rightarrow> int" where
  "char_to_int char_signed c =
     (if char_signed \<and> (128::int) \<le> of_char c then of_char c - 256 else of_char c)"

text \<open>The entry \<^verbatim>\<open>(float)c / 255.0f\<close> that the vectorizer writes for a character.\<close>

definition char_to_float :: "bool \<Rightarrow> char \<Rightarrow> cfloat" where
  "char_to_float char_signed c = fdiv (int_to_float (char_to_int char_signed c)) (Fin 255)"

subsection \<open>custom_strlen\<close>

text \<open>
  \<^verbatim>\<open>int length = 0; while (str[length] != '\0') length++; return length;\<close>
  The loop runs off the buffer when it holds no terminator: \<open>None\<close>.
\<close>

function strlen_loop :: "string \<Rightarrow> nat \<Rightarrow> nat option" where
  "strlen_loop str n =
     (if n < length str
      then (if str ! n \<noteq> NUL then strlen_loop str (n + 1) else Some n)
      else None)"
  by pat_completeness auto
termination
  by (relation "measure (\<lambda>(str, n). length str - n)") auto

declare strlen_loop.simps [simp del]

definition custom_strlen :: "string \<Rightarrow> nat option" where
  "custom_strlen str = strlen_loop str 0"

subsection \<open>tokenizeAndEmbed\<close>

text \<open>
  \<^verbatim>\<open>
  for (int i = 0; i < num_samples; i++)
      for (int j = 0; j < custom_strlen(dataset[i].text); j++)
          token_ids[i * MAX_TOKENS + j] = (float)(dataset[i].text[j]) / 255.0f;
  \<close>
  \<open>token_ids\<close> is the flat array the caller allocated, passed in with the contents it has
  at the call and returned updated. The row width \<open>W\<close> is \<^verbatim>\<open>MAX_TOKENS\<close> in the program;
  it is a parameter so that the function can be run on short buffers. The character is
  converted to \<^verbatim>\<open>float\<close> and divided by \<^verbatim>\<open>255.0f\<close> in single precision; the index is an
  \<^verbatim>\<open>int\<close>.
\<close>

function embed_row ::
  "bool \<Rightarrow> nat \<Rightarrow> Post list \<Rightarrow> nat \<Rightarrow> nat \<Rightarrow> cfloat list \<Rightarrow> cfloat list option" where
  "embed_row sg W dataset i j token_ids =
     (case custom_strlen (text_buf (dataset ! i)) of
        None \<Rightarrow> None
      | Some len \<Rightarrow>
          if j < len then
            (if i * W + j \<le> INT_MAX \<and> i * W + j < length token_ids
             then embed_row sg W dataset i (j + 1)
                    (token_ids[i * W + j := char_to_float sg (text_buf (dataset ! i) ! j)])
             else None)
          else Some token_ids)"
  by pat_completeness auto
termination
  by (relation "measure (\<lambda>(sg, W, dataset, i, j, token_ids).
        (case custom_strlen (text_buf (dataset ! i)) of None \<Rightarrow> 0 | Some len \<Rightarrow> len - j))")
     auto

declare embed_row.simps [simp del]

function embed_rows ::
  "bool \<Rightarrow> nat \<Rightarrow> Post list \<Rightarrow> nat \<Rightarrow> nat \<Rightarrow> cfloat list \<Rightarrow> cfloat list option" where
  "embed_rows sg W dataset i num_samples token_ids =
     (if i < num_samples then
        (if i < length dataset then
           (case embed_row sg W dataset i 0 token_ids of
              None \<Rightarrow> None
            | Some t \<Rightarrow> embed_rows sg W dataset (i + 1) num_samples t)
         else None)
      else Some token_ids)"
  by pat_completeness auto
termination
  by (relation "measure (\<lambda>(sg, W, dataset, i, num_samples, token_ids). num_samples - i)") auto

declare embed_rows.simps [simp del]

definition tokenizeAndEmbed ::
  "bool \<Rightarrow> nat \<Rightarrow> Post list \<Rightarrow> cfloat list \<Rightarrow> nat \<Rightarrow> cfloat list option" where
  "tokenizeAndEmbed sg W dataset token_ids num_samples =
     embed_rows sg W dataset 0 num_samples token_ids"

text \<open>
  A record as \<^verbatim>\<open>loadDataset\<close> leaves it: a buffer of the row width that holds a
  terminator.
\<close>

definition wf_post :: "nat \<Rightarrow> Post \<Rightarrow> bool" where
  "wf_post W p = (length (text_buf p) = W \<and> NUL \<in> set (text_buf p))"

subsection \<open>safe_malloc\<close>

text \<open>
  \<^verbatim>\<open>void *ptr = malloc(size); if (!ptr) { ...; exit(1); } return ptr;\<close>
  Whether \<^verbatim>\<open>malloc\<close> grants a block is not in the hands of the program: \<open>granted name sz\<close>
  says whether it does, for the block that the caller names \<open>name\<close> and that holds \<open>sz\<close>
  array elements. \<^verbatim>\<open>malloc\<close> does not initialise the block: its contents are whatever the
  heap holds, \<open>heap name k\<close> at index \<open>k\<close>.
\<close>

definition safe_malloc ::
  "(string \<Rightarrow> nat \<Rightarrow> bool) \<Rightarrow> (string \<Rightarrow> nat \<Rightarrow> 'a) \<Rightarrow> nat \<Rightarrow> string \<Rightarrow> 'a list outcome" where
  "safe_malloc granted heap sz name =
     (if granted name sz then Returns (map (heap name) [0..<sz]) else Exit 1)"

subsection \<open>shuffleDataset\<close>

text \<open>
  \<^verbatim>\<open>
  srand(time(NULL));
  for (int i = 0; i < num_samples; i++) {
      int j = rand() % num_samples;
      Post temp = dataset[i]; dataset[i] = dataset[j]; dataset[j] = temp;
  }
  \<close>
  \<open>rnd k\<close> is the value of the \<open>k\<close>-th call of \<^verbatim>\<open>rand()\<close> after the seeding; the seed is
  the wall-clock time, so the sequence is a parameter. \<^verbatim>\<open>rand()\<close> is never negative, so
  \<^verbatim>\<open>%\<close> is \<open>mod\<close>. Its only caller passes the number of records of the array; a larger
  \<open>num_samples\<close> would index outside the array, which this function does not model (the
  properties below assume \<open>num_samples \<le> length dataset\<close>).
\<close>

function shuffle_loop :: "(nat \<Rightarrow> nat) \<Rightarrow> nat \<Rightarrow> nat \<Rightarrow> Post list \<Rightarrow> Post list" where
  "shuffle_loop rnd i num_samples dataset =
     (if i < num_samples then
        (let j = rnd i mod num_samples;
             temp = dataset ! i;
             dataset1 = dataset[i := dataset ! j];
             dataset2 = dataset1[j := temp]
         in shuffle_loop rnd (i + 1) num_samples dataset2)
      else dataset)"
  by pat_completeness auto
termination
  by (relation "measure (\<lambda>(rnd, i, num_samples, dataset). num_samples - i)") auto

declare shuffle_loop.simps [simp del]

definition shuffleDataset :: "(nat \<Rightarrow> nat) \<Rightarrow> Post list \<Rightarrow> nat \<Rightarrow> Post list" where
  "shuffleDataset rnd dataset num_samples = shuffle_loop rnd 0 num_samples dataset"

text \<open>
  Every sequence of residues \<open>j\<^sub>0, \<dots>, j\<^sub>n\<^sub>-\<^sub>1\<close> that the \<open>n\<close> draws \<^verbatim>\<open>rand() % n\<close> can take,
  and the order of the records that each of them leaves. With a perfect random number
  generator the \<open>n ^ n\<close> sequences are equally likely.
\<close>

definition shuffle_outcomes :: "Post list \<Rightarrow> Post list list" where
  "shuffle_outcomes dataset =
     map (\<lambda>js. shuffleDataset (\<lambda>k. js ! k) dataset (length dataset))
       (List.n_lists (length dataset) [0..<length dataset])"

subsection \<open>C library functions used by loadDataset\<close>

text \<open>
  \<^verbatim>\<open>strtok\<close>, after the C standard: skip the delimiters at the front; if nothing is left
  return no token; otherwise the token runs up to the next delimiter, and the scan resumes
  behind that delimiter. The first component is the token (\<open>None\<close> for a null pointer),
  the second the rest of the string that the next call \<^verbatim>\<open>strtok(NULL, ...)\<close> scans.
\<close>

definition strtok :: "string \<Rightarrow> string \<Rightarrow> string option \<times> string" where
  "strtok delim s =
     (let s1 = dropWhile (\<lambda>c. c \<in> set delim) s
      in if s1 = [] then (None, [])
         else (Some (takeWhile (\<lambda>c. c \<notin> set delim) s1),
               drop 1 (dropWhile (\<lambda>c. c \<notin> set delim) s1)))"

definition isspace :: "char \<Rightarrow> bool" where
  "isspace c = (c \<in> set [CHR '' '', CHR 0x09, CHR 0x0A, CHR 0x0B, CHR 0x0C, CHR 0x0D])"

definition isdigit :: "char \<Rightarrow> bool" where
  "isdigit c = ((48::nat) \<le> of_char c \<and> (of_char c :: nat) \<le> 57)"

fun digits_value :: "string \<Rightarrow> int \<Rightarrow> int" where
  "digits_value [] acc = acc"
| "digits_value (c # cs) acc =
     (if isdigit c then digits_value cs (10 * acc + (of_char c - 48)) else acc)"

text \<open>
  \<^verbatim>\<open>atoi\<close>: white space, an optional sign, then decimal digits; 0 when there are none.
  The C standard leaves a value outside the range of \<^verbatim>\<open>int\<close> undefined; the C library of
  the platform computes \<^verbatim>\<open>(int)strtol(s, NULL, 10)\<close>: the value is limited to the range of
  \<^verbatim>\<open>long\<close> (64 bits) and then cut to its low 32 bits.
\<close>

definition strtol_value :: "string \<Rightarrow> int" where
  "strtol_value s =
     (case dropWhile isspace s of
        [] \<Rightarrow> 0
      | c # cs \<Rightarrow>
          if c = CHR ''-'' then - digits_value cs 0
          else if c = CHR ''+'' then digits_value cs 0
          else digits_value (c # cs) 0)"

definition long_to_int :: "int \<Rightarrow> int" where
  "long_to_int v = (v + 2 ^ 31) mod 2 ^ 32 - 2 ^ 31"

definition atoi :: "string \<Rightarrow> int" where
  "atoi s = long_to_int (max (- (2 ^ 63)) (min (2 ^ 63 - 1) (strtol_value s)))"

text \<open>
  \<^verbatim>\<open>strncpy(dst, token, MAX_TOKENS - 1); dst[MAX_TOKENS - 1] = '\0';\<close> on a buffer of
  \<open>W\<close> characters: the token, cut at \<open>W - 1\<close> characters, padded with terminators.
\<close>

definition strncpy_text :: "nat \<Rightarrow> string \<Rightarrow> string" where
  "strncpy_text W token = take (W - 1) token @ replicate (W - 1 - length token) NUL @ [NUL]"

subsection \<open>loadDataset\<close>

text \<open>
  The file is the list of the strings that the successive calls of \<^verbatim>\<open>fgets\<close> return
  (\<open>None\<close> when it cannot be opened). The array \<^verbatim>\<open>*dataset\<close> is a store from indices to
  records that starts with the contents of the allocated block; \<^verbatim>\<open>realloc\<close> keeps the
  contents and is taken to succeed.
\<close>

record load_state =
  ls_dataset :: "nat \<Rightarrow> Post"
  ls_count :: nat
  ls_capacity :: nat

text \<open>
  The four calls \<^verbatim>\<open>strtok(NULL, ",")\<close> whose tokens are dropped: one before the
  \<^verbatim>\<open>for\<close> loop and three in it.
\<close>

fun skip_columns :: "nat \<Rightarrow> string \<Rightarrow> string" where
  "skip_columns 0 rest = rest"
| "skip_columns (Suc k) rest = skip_columns k (snd (strtok '','' rest))"

text \<open>
  The token that \<^verbatim>\<open>strtok(NULL, "\n")\<close> returns for a line whose first token exists:
  the text field of the record, if it has one.
\<close>

definition text_token :: "string \<Rightarrow> string option" where
  "text_token rest1 = fst (strtok [CHR 0x0A] (skip_columns 3 (snd (strtok '','' rest1))))"

text \<open>
  One iteration of the \<^verbatim>\<open>while (fgets(line, sizeof(line), file))\<close> loop:
  \<^verbatim>\<open>
  if (count >= capacity) { capacity *= 2; *dataset = realloc(*dataset, ...); ... }
  char *token = strtok(line, ",");
  if (!token) continue;
  (*dataset)[count].label = atoi(token);
  token = strtok(NULL, ",");
  for (int i = 0; i < 3; i++) token = strtok(NULL, ",");
  token = strtok(NULL, "\n");
  if (token) {
      strncpy((*dataset)[count].text, token, MAX_TOKENS - 1);
      (*dataset)[count].text[MAX_TOKENS - 1] = '\0';
      count++;
  }
  \<close>
  The label is stored before the text field is looked for; \<open>count\<close> only moves on when
  there is one.
\<close>

definition load_line :: "nat \<Rightarrow> load_state \<Rightarrow> string \<Rightarrow> load_state" where
  "load_line W st line =
     (let st1 = (if ls_capacity st \<le> ls_count st
                 then st\<lparr>ls_capacity := 2 * ls_capacity st\<rparr> else st);
          count = ls_count st1;
          dataset = ls_dataset st1
      in case strtok '','' line of
           (None, rest1) \<Rightarrow> st1
         | (Some token, rest1) \<Rightarrow>
             (let dataset1 = dataset(count := (dataset count)\<lparr>label := atoi token\<rparr>)
              in case text_token rest1 of
                   None \<Rightarrow> st1\<lparr>ls_dataset := dataset1\<rparr>
                 | Some txt \<Rightarrow>
                     st1\<lparr>ls_dataset :=
                           dataset1(count := (dataset1 count)\<lparr>text_buf := strncpy_text W txt\<rparr>),
                         ls_count := count + 1\<rparr>))"

fun load_lines :: "nat \<Rightarrow> string list \<Rightarrow> load_state \<Rightarrow> load_state" where
  "load_lines W [] st = st"
| "load_lines W (line # lines) st = load_lines W lines (load_line W st line)"

text \<open>
  \<^verbatim>\<open>fopen\<close>, then \<^verbatim>\<open>*dataset = safe_malloc(capacity * sizeof(Post), "dataset")\<close> with a
  capacity of 1000 records, then the loop. \<open>heap\<close> holds the contents of the block and of
  what \<^verbatim>\<open>realloc\<close> appends to it. The result is the returned count and the records
  \<^verbatim>\<open>(*dataset)[0 .. count - 1]\<close>.
\<close>

definition loadDataset ::
  "nat \<Rightarrow> (string \<Rightarrow> nat \<Rightarrow> bool) \<Rightarrow> (nat \<Rightarrow> Post) \<Rightarrow> string list option
     \<Rightarrow> (nat \<times> Post list) outcome" where
  "loadDataset W granted heap file =
     (case file of
        None \<Rightarrow> Exit 1
      | Some lines \<Rightarrow>
          if granted ''dataset'' 1000 then
            (let st = load_lines W lines \<lparr>ls_dataset = heap, ls_count = 0, ls_capacity = 1000\<rparr>
             in Returns (ls_count st, map (ls_dataset st) [0..<ls_count st]))
          else Exit 1)"

text \<open>
  A line is malformed when it has no text field: its first token is missing, or the
  token after the five leading columns is.
\<close>

definition malformed :: "string \<Rightarrow> bool" where
  "malformed line =
     (case strtok '','' line of
        (None, rest1) \<Rightarrow> True
      | (Some token, rest1) \<Rightarrow> text_token rest1 = None)"

text \<open>Two load states agree when they hold the same records below the same count.\<close>

definition same_records :: "load_state \<Rightarrow> load_state \<Rightarrow> bool" where
  "same_records st st' =
     (ls_count st = ls_count st' \<and> (\<forall>k < ls_count st. ls_dataset st k = ls_dataset st' k))"

subsection \<open>The size of the training split\<close>

text \<open>
  \<^verbatim>\<open>*trainSize = (int)(num_samples * 0.7);\<close>
  The product is computed in IEEE 754 double precision. The constant \<^verbatim>\<open>0.7\<close> is the
  double \<open>6305039478318694 / 2 ^ 53\<close>; \<open>num_samples\<close> converts exactly. The exact product
  \<open>m / 2 ^ 53\<close> is rounded to 53 significant bits, to nearest, ties to even, and the
  conversion to \<^verbatim>\<open>int\<close> drops the fraction.
\<close>

definition double_0_7 :: nat where
  "double_0_7 = 6305039478318694"

fun bit_length :: "nat \<Rightarrow> nat" where
  "bit_length n = (if n = 0 then 0 else bit_length (n div 2) + 1)"

declare bit_length.simps [simp del]

definition round_ties_even :: "nat \<Rightarrow> nat \<Rightarrow> nat" where
  "round_ties_even s m =
     (let q = m div 2 ^ s; r = m mod 2 ^ s
      in if 2 ^ s < 2 * r \<or> (2 * r = 2 ^ s \<and> odd q) then (q + 1) * 2 ^ s else q * 2 ^ s)"

definition double_round :: "nat \<Rightarrow> nat" where
  "double_round m = (if bit_length m \<le> 53 then m else round_ties_even (bit_length m - 53) m)"

definition train_size :: "nat \<Rightarrow> nat" where
  "train_size num_samples = double_round (num_samples * double_0_7) div 2 ^ 53"

subsection \<open>loadAndSplitDataset\<close>

text \<open>
  \<^verbatim>\<open>
  int num_samples = loadDataset(filename, &dataset);
  shuffleDataset(dataset, num_samples);
  *trainSize = (int)(num_samples * 0.7);
  *testSize = num_samples - *trainSize;
  *trainSet = (Post *)safe_malloc(*trainSize * sizeof(Post), "trainSet");
  *testSet = (Post *)safe_malloc(*testSize * sizeof(Post), "testSet");
  for (int i = 0; i < *trainSize; i++) (*trainSet)[i] = dataset[i];
  for (int i = 0; i < *testSize; i++) (*testSet)[i] = dataset[*trainSize + i];
  return num_samples;
  \<close>
  The result holds the return value and the four values stored through the pointer
  arguments. The two loops fill the two blocks completely, so their contents before do
  not matter; the sizes are multiplied in \<^verbatim>\<open>size_t\<close>.
\<close>

definition loadAndSplitDataset ::
  "nat \<Rightarrow> (string \<Rightarrow> nat \<Rightarrow> bool) \<Rightarrow> (nat \<Rightarrow> Post) \<Rightarrow> (nat \<Rightarrow> nat) \<Rightarrow> string list option
     \<Rightarrow> (nat \<times> Post list \<times> Post list \<times> nat \<times> nat) outcome" where
  "loadAndSplitDataset W granted heap rnd file =
     (case loadDataset W granted heap file of
        Exit c \<Rightarrow> Exit c
      | Returns (num_samples, loaded) \<Rightarrow>
          (let dataset = shuffleDataset rnd loaded num_samples;
               trainSize = train_size num_samples;
               testSize = num_samples - trainSize
           in if granted ''trainSet'' trainSize \<and> granted ''testSet'' testSize then
                (let trainSet = map (\<lambda>i. dataset ! i) [0..<trainSize];
                     testSet = map (\<lambda>i. dataset ! (trainSize + i)) [0..<testSize]
                 in Returns (num_samples, trainSet, testSet, trainSize, testSize))
              else Exit 1))"

subsection \<open>init_weights\<close>

text \<open>
  \<^verbatim>\<open>
  for (int i = 0; i < num_features * num_features; i++)
      weights[i] = ((float)rand() / RAND_MAX) * sqrt(2.0f / num_features);
  \<close>
  \<^verbatim>\<open>RAND_MAX\<close> is the constant of the C library (the value of glibc). The two quotients
  are single-precision divisions (the \<^verbatim>\<open>int\<close> operands are converted to \<^verbatim>\<open>float\<close>);
  \<^verbatim>\<open>sqrt\<close> and the product are in double precision, and the assignment rounds the product
  to single precision.
\<close>

definition RAND_MAX :: nat where
  "RAND_MAX = 2147483647"

definition initial_weight :: "nat \<Rightarrow> nat \<Rightarrow> cfloat" where
  "initial_weight r num_features =
     double_to_float
       (fl_mul round64
          (fdiv (int_to_float (int r)) (int_to_float (int RAND_MAX)))
          (fl_sqrt round64 (fdiv (Fin 2) (int_to_float (int num_features)))))"

function init_weights_loop ::
  "(nat \<Rightarrow> nat) \<Rightarrow> nat \<Rightarrow> nat \<Rightarrow> cfloat list \<Rightarrow> cfloat list option" where
  "init_weights_loop rnd i num_features weights =
     (if i < num_features * num_features then
        (if num_features * num_features \<le> INT_MAX \<and> i < length weights
         then init_weights_loop rnd (i + 1) num_features
                (weights[i := initial_weight (rnd i) num_features])
         else None)
      else Some weights)"
  by pat_completeness auto
termination
  by (relation "measure (\<lambda>(rnd, i, num_features, weights). num_features * num_features - i)")
     auto

declare init_weights_loop.simps [simp del]

definition init_weights :: "(nat \<Rightarrow> nat) \<Rightarrow> cfloat list \<Rightarrow> nat \<Rightarrow> cfloat list option" where
  "init_weights rnd weights num_features = init_weights_loop rnd 0 num_features weights"

subsection \<open>denseLayer\<close>

text \<open>
  \<^verbatim>\<open>
  for (int i = 0; i < num_samples; i++) {
      outputs[i] = biases[0];
      for (int k = 0; k < embedding_size; k++)
          outputs[i] += inputs[i * embedding_size + k] * weights[k];
  }
  \<close>
  The inner loop accumulates in \<^verbatim>\<open>outputs[i]\<close>; the arrays are distinct blocks, so the
  accumulator is a value here and is stored when the loop ends. The product and the sum
  are single-precision operations, each rounded; the index is an \<^verbatim>\<open>int\<close>.
\<close>

function dense_dot ::
  "cfloat list \<Rightarrow> cfloat list \<Rightarrow> nat \<Rightarrow> nat \<Rightarrow> nat \<Rightarrow> cfloat \<Rightarrow> cfloat option" where
  "dense_dot inputs weights i embedding_size k acc =
     (if k < embedding_size then
        (if i * embedding_size + k \<le> INT_MAX \<and> i * embedding_size + k < length inputs
            \<and> k < length weights
         then dense_dot inputs weights i embedding_size (k + 1)
                (fadd acc (fmul (inputs ! (i * embedding_size + k)) (weights ! k)))
         else None)
      else Some acc)"
  by pat_completeness auto
termination
  by (relation "measure (\<lambda>(inputs, weights, i, embedding_size, k, acc). embedding_size - k)")
     auto

declare dense_dot.simps [simp del]

function dense_rows ::
  "cfloat list \<Rightarrow> cfloat list \<Rightarrow> cfloat list \<Rightarrow> nat \<Rightarrow> nat \<Rightarrow> nat \<Rightarrow> cfloat list
     \<Rightarrow> cfloat list option" where
  "dense_rows inputs weights biases i num_samples embedding_size outputs =
     (if i < num_samples then
        (if i < length outputs \<and> 0 < length biases then
           (case dense_dot inputs weights i embedding_size 0 (biases ! 0) of
              None \<Rightarrow> None
            | Some v \<Rightarrow>
                dense_rows inputs weights biases (i + 1) num_samples embedding_size
                  (outputs[i := v]))
         else None)
      else Some outputs)"
  by pat_completeness auto
termination
  by (relation "measure (\<lambda>(inputs, weights, biases, i, num_samples, embedding_size, outputs).
        num_samples - i)") auto

declare dense_rows.simps [simp del]

definition denseLayer ::
  "cfloat list \<Rightarrow> cfloat list \<Rightarrow> cfloat list \<Rightarrow> cfloat list \<Rightarrow> nat \<Rightarrow> nat
     \<Rightarrow> cfloat list option" where
  "denseLayer inputs weights biases outputs num_samples embedding_size =
     dense_rows inputs weights biases 0 num_samples embedding_size outputs"

text \<open>
  The sum that the inner loop computes for row \<open>i\<close>: from the bias on, the rounded
  products are added one after the other, each sum rounded.
\<close>

definition float_dot :: "cfloat list \<Rightarrow> cfloat list \<Rightarrow> nat \<Rightarrow> nat \<Rightarrow> cfloat \<Rightarrow> cfloat" where
  "float_dot inputs weights i D bias =
     foldl (\<lambda>acc k. fadd acc (fmul (inputs ! (i * D + k)) (weights ! k))) bias [0..<D]"

subsection \<open>sigmoidActivation\<close>

text \<open>
  \<^verbatim>\<open>for (int i = 0; i < size; i++) outputs[i] = 1.0f / (1.0f + expf(-outputs[i]));\<close>
\<close>

definition sigmoid32 :: "cfloat \<Rightarrow> cfloat" where
  "sigmoid32 x = fdiv (Fin 1) (fadd (Fin 1) (expf (fneg x)))"

function sigmoid_loop :: "nat \<Rightarrow> nat \<Rightarrow> cfloat list \<Rightarrow> cfloat list option" where
  "sigmoid_loop i sz outputs =
     (if i < sz then
        (if i < length outputs
         then sigmoid_loop (i + 1) sz (outputs[i := sigmoid32 (outputs ! i)])
         else None)
      else Some outputs)"
  by pat_completeness auto
termination
  by (relation "measure (\<lambda>(i, sz, outputs). sz - i)") auto

declare sigmoid_loop.simps [simp del]

definition sigmoidActivation :: "cfloat list \<Rightarrow> nat \<Rightarrow> cfloat list option" where
  "sigmoidActivation outputs sz = sigmoid_loop 0 sz outputs"

subsection \<open>evaluate\<close>

text \<open>
  \<^verbatim>\<open>
  int correct = 0;
  for (int i = 0; i < num_samples; i++) {
      int predicted_label = outputs[i] > 0.6f ? 4 : 0;
      if (predicted_label == labels[i]) correct++;
  }
  return (float)correct / num_samples;
  \<close>
  The constant \<^verbatim>\<open>0.6f\<close> is the single-precision number nearest to 0.6, which is
  \<open>5033165 / 8388608\<close>, a little above 0.6. In the quotient both operands are converted to
  \<^verbatim>\<open>float\<close>, and the division is the single-precision one: \<open>0 / 0\<close> is a NaN.
\<close>

definition float_0_6 :: real where
  "float_0_6 = 5033165 / 8388608"

definition float_div :: "nat \<Rightarrow> nat \<Rightarrow> cfloat" where
  "float_div a b = fdiv (int_to_float (int a)) (int_to_float (int b))"

definition predicted_label :: "cfloat \<Rightarrow> int" where
  "predicted_label x = (if fl_gt x (Fin float_0_6) then 4 else 0)"

function count_correct :: "cfloat list \<Rightarrow> int list \<Rightarrow> nat \<Rightarrow> nat \<Rightarrow> nat \<Rightarrow> nat option" where
  "count_correct outputs labels i num_samples correct =
     (if i < num_samples then
        (if i < length outputs \<and> i < length labels
         then count_correct outputs labels (i + 1) num_samples
                (if predicted_label (outputs ! i) = labels ! i then correct + 1 else correct)
         else None)
      else Some correct)"
  by pat_completeness auto
termination
  by (relation "measure (\<lambda>(outputs, labels, i, num_samples, correct). num_samples - i)") auto

declare count_correct.simps [simp del]

definition evaluate :: "cfloat list \<Rightarrow> int list \<Rightarrow> nat \<Rightarrow> cfloat option" where
  "evaluate outputs labels num_samples =
     map_option (\<lambda>correct. float_div correct num_samples)
       (count_correct outputs labels 0 num_samples 0)"

subsection \<open>main\<close>

text \<open>
  What the program does not determine: the signedness of plain \<^verbatim>\<open>char\<close>, the two
  sequences of \<^verbatim>\<open>rand()\<close> values (the generator is seeded again before the weights are
  drawn), which blocks \<^verbatim>\<open>malloc\<close> grants and what freshly allocated blocks hold.
\<close>

record env =
  env_char_signed :: bool
  env_shuffle_rand :: "nat \<Rightarrow> nat"
  env_weights_rand :: "nat \<Rightarrow> nat"
  env_granted :: "string \<Rightarrow> nat \<Rightarrow> bool"
  env_heap_posts :: "nat \<Rightarrow> Post"
  env_heap_ints :: "string \<Rightarrow> nat \<Rightarrow> int"
  env_heap_floats :: "string \<Rightarrow> nat \<Rightarrow> cfloat"

text \<open>
  The result of a run: the exit status of a failed run, the two accuracies that a
  completed run prints (training set, test set), or undefined behaviour.
\<close>

datatype run = Failed int | Reported cfloat cfloat | Undefined_behaviour

text \<open>
  A step that may end the run with an exit status, and a step whose behaviour may be
  undefined; \<open>k\<close> is the rest of \<open>main\<close>.
\<close>

definition or_exit :: "'a outcome \<Rightarrow> ('a \<Rightarrow> run) \<Rightarrow> run" where
  "or_exit r k = (case r of Exit c \<Rightarrow> Failed c | Returns x \<Rightarrow> k x)"

definition or_undefined :: "'a option \<Rightarrow> ('a \<Rightarrow> run) \<Rightarrow> run" where
  "or_undefined r k = (case r of None \<Rightarrow> Undefined_behaviour | Some x \<Rightarrow> k x)"

text \<open>A product of two \<^verbatim>\<open>int\<close>s: undefined when it exceeds \<^verbatim>\<open>INT_MAX\<close>.\<close>

definition int_mul :: "nat \<Rightarrow> nat \<Rightarrow> nat option" where
  "int_mul a b = (if a * b \<le> INT_MAX then Some (a * b) else None)"

text \<open>
  \<open>main\<close> follows the source in its order: load and split; the guard
  \<^verbatim>\<open>if (trainSize == 0 || testSize == 0) { ...; return 1; }\<close>; the labels and the blocks
  of the training set; the weights and the zeroed biases; the four stages on the training
  set; the same on the test set with the same weights and biases. The sizes
  \<^verbatim>\<open>trainSize * MAX_TOKENS * sizeof(float)\<close> and \<^verbatim>\<open>trainSize * NUM_FEATURES * sizeof(float)\<close>
  (and those of the test set) multiply two \<^verbatim>\<open>int\<close>s first; \<^verbatim>\<open>trainSize * sizeof(int)\<close> is
  a product in \<^verbatim>\<open>size_t\<close>. The loops that copy the labels and zero the biases fill their
  blocks completely.
\<close>

definition main :: "env \<Rightarrow> string list option \<Rightarrow> run" where
  "main e file =
     or_exit (loadAndSplitDataset MAX_TOKENS (env_granted e) (env_heap_posts e)
                (env_shuffle_rand e) file)
       (\<lambda>(num_samples, trainSet, testSet, trainSize, testSize).
     if trainSize = 0 \<or> testSize = 0 then Failed 1 else
     or_exit (safe_malloc (env_granted e) (env_heap_ints e) trainSize ''trainLabels'')
       (\<lambda>trainLabelsBlock.
     let trainLabels = map (\<lambda>i. label (trainSet ! i)) [0..<trainSize] in
     or_undefined (int_mul trainSize MAX_TOKENS) (\<lambda>trainTokenCount.
     or_exit (safe_malloc (env_granted e) (env_heap_floats e) trainTokenCount ''trainTokenIds'')
       (\<lambda>trainTokenIds.
     or_undefined (int_mul NUM_FEATURES NUM_FEATURES) (\<lambda>weightCount.
     or_exit (safe_malloc (env_granted e) (env_heap_floats e) weightCount ''trainWeights'')
       (\<lambda>trainWeightsBlock.
     or_exit (safe_malloc (env_granted e) (env_heap_floats e) NUM_FEATURES ''trainBiases'')
       (\<lambda>trainBiasesBlock.
     or_undefined (int_mul trainSize NUM_FEATURES) (\<lambda>trainOutputCount.
     or_exit (safe_malloc (env_granted e) (env_heap_floats e) trainOutputCount ''trainOutputs'')
       (\<lambda>trainOutputs.
     or_undefined (init_weights (env_weights_rand e) trainWeightsBlock NUM_FEATURES)
       (\<lambda>trainWeights.
     let trainBiases = replicate NUM_FEATURES (Fin 0) in
     or_undefined (tokenizeAndEmbed (env_char_signed e) MAX_TOKENS trainSet trainTokenIds
                     trainSize) (\<lambda>trainTokens.
     or_undefined (denseLayer trainTokens trainWeights trainBiases trainOutputs trainSize
                     NUM_FEATURES) (\<lambda>trainScores.
     or_undefined (sigmoidActivation trainScores trainSize) (\<lambda>trainActivated.
     or_undefined (evaluate trainActivated trainLabels trainSize) (\<lambda>accuracy.
     or_exit (safe_malloc (env_granted e) (env_heap_ints e) testSize ''testLabels'')
       (\<lambda>testLabelsBlock.
     let testLabels = map (\<lambda>i. label (testSet ! i)) [0..<testSize] in
     or_undefined (int_mul testSize MAX_TOKENS) (\<lambda>testTokenCount.
     or_exit (safe_malloc (env_granted e) (env_heap_floats e) testTokenCount ''testTokenIds'')
       (\<lambda>testTokenIds.
     or_undefined (int_mul testSize NUM_FEATURES) (\<lambda>testOutputCount.
     or_exit (safe_malloc (env_granted e) (env_heap_floats e) testOutputCount ''testOutputs'')
       (\<lambda>testOutputs.
     or_undefined (tokenizeAndEmbed (env_char_signed e) MAX_TOKENS testSet testTokenIds
                     testSize) (\<lambda>testTokens.
     or_undefined (denseLayer testTokens trainWeights trainBiases testOutputs testSize
                     NUM_FEATURES) (\<lambda>testScores.
     or_undefined (sigmoidActivation testScores testSize) (\<lambda>testActivated.
     or_undefined (evaluate testActivated testLabels testSize) (\<lambda>testAccuracy.
     Reported accuracy testAccuracy)))))))))))))))))))))))"

section \<open>Properties of rounding\<close>

lemmas round_eval = round32_def round_float_def round_pos_def round_value_def binade_def
  binade_up.simps binade_down.simps round_even_def Let_def

lemma round_even_bounds: "\<lfloor>y\<rfloor> \<le> round_even y \<and> round_even y \<le> \<lfloor>y\<rfloor> + 1"
  by (simp add: round_even_def Let_def)

lemma round_even_of_int: "round_even (of_int k) = k"
  by (simp add: round_even_def Let_def)

lemma round_even_mono:
  assumes "y \<le> z"
  shows "round_even y \<le> round_even z"
proof (cases "\<lfloor>y\<rfloor> = \<lfloor>z\<rfloor>")
  case True
  with assms have "y - of_int \<lfloor>y\<rfloor> \<le> z - of_int \<lfloor>z\<rfloor>" by simp
  with True show ?thesis by (auto simp: round_even_def Let_def)
next
  case False
  from assms have "\<lfloor>y\<rfloor> \<le> \<lfloor>z\<rfloor>" by (rule floor_mono)
  with False have "\<lfloor>y\<rfloor> + 1 \<le> \<lfloor>z\<rfloor>" by simp
  with round_even_bounds [of y] round_even_bounds [of z] show ?thesis by linarith
qed

lemma round_even_ge: "of_int k \<le> y \<Longrightarrow> k \<le> round_even y"
  using round_even_mono [of "of_int k" y] by (simp add: round_even_of_int)

lemma round_even_le: "y \<le> of_int k \<Longrightarrow> round_even y \<le> k"
  using round_even_mono [of y "of_int k"] by (simp add: round_even_of_int)

lemma binade_up_spec:
  assumes "0 < p" and "p \<le> x" and "x < p * 2 ^ (n + 1)"
  shows "\<exists>j \<le> n. binade_up n p x = p * 2 ^ j \<and> p * 2 ^ j \<le> x \<and> x < 2 * (p * 2 ^ j)"
  using assms
proof (induction n p x rule: binade_up.induct)
  case (1 n p x)
  note unfold = binade_up.simps [of n p x]
  show ?case
  proof (cases "n = 0 \<or> x < 2 * p")
    case True
    with unfold have "binade_up n p x = p" by simp
    moreover from True "1.prems" have "x < 2 * p" by auto
    ultimately show ?thesis using "1.prems" by (intro exI [of _ 0]) simp
  next
    case False
    then have n: "n \<noteq> 0" and x: "2 * p \<le> x" by simp_all
    from n obtain m where m: "n = Suc m" by (cases n) auto
    from "1.prems" m have "x < (2 * p) * 2 ^ (n - 1 + 1)" by simp
    with "1.IH" [OF False] "1.prems"(1) x
    obtain j where j: "j \<le> n - 1" "binade_up (n - 1) (2 * p) x = 2 * p * 2 ^ j"
      "2 * p * 2 ^ j \<le> x" "x < 2 * (2 * p * 2 ^ j)"
      by auto
    from unfold False j(2) have "binade_up n p x = p * 2 ^ (Suc j)" by simp
    with j m show ?thesis by (intro exI [of _ "Suc j"]) simp
  qed
qed

lemma binade_down_spec:
  assumes "0 < p" and "x < 2 * p"
  shows "\<exists>j \<le> n. binade_down n p x = p / 2 ^ j \<and> x < 2 * (p / 2 ^ j) \<and>
           (p / 2 ^ j \<le> x \<or> j = n)"
  using assms
proof (induction n p x rule: binade_down.induct)
  case (1 n p x)
  note unfold = binade_down.simps [of n p x]
  show ?case
  proof (cases "n = 0 \<or> p \<le> x")
    case True
    with unfold have "binade_down n p x = p" by simp
    with True "1.prems" show ?thesis by (intro exI [of _ 0]) auto
  next
    case False
    then have n: "n \<noteq> 0" and x: "x < p" by simp_all
    from n obtain m where m: "n = Suc m" by (cases n) auto
    from x have "x < 2 * (p / 2)" by simp
    with "1.IH" [OF False] "1.prems"(1)
    obtain j where j: "j \<le> n - 1" "binade_down (n - 1) (p / 2) x = p / 2 / 2 ^ j"
      "x < 2 * (p / 2 / 2 ^ j)" "p / 2 / 2 ^ j \<le> x \<or> j = n - 1"
      by auto
    from unfold False j(2) have "binade_down n p x = p / 2 ^ (Suc j)" by simp
    with j m show ?thesis by (intro exI [of _ "Suc j"]) auto
  qed
qed

text \<open>The binade of a positive number below the overflow threshold.\<close>

lemma binade_spec:
  assumes "0 < x" and "x < 2 ^ (hi + 1)"
  shows "\<exists>e::int. binade lo hi x = 2 powi e \<and> - int lo \<le> e \<and> e \<le> int hi \<and>
           x < 2 * 2 powi e \<and> (2 powi e \<le> x \<or> e = - int lo)"
proof (cases "1 \<le> x")
  case True
  from binade_up_spec [of 1 x hi] True assms(2)
  obtain j where j: "j \<le> hi" "binade_up hi 1 x = 2 ^ j" "2 ^ j \<le> x" "x < 2 * 2 ^ j"
    by auto
  with True show ?thesis
    by (intro exI [of _ "int j"]) (simp add: binade_def)
next
  case False
  from binade_down_spec [of 1 x lo] False
  obtain j where j: "j \<le> lo" "binade_down lo 1 x = 1 / 2 ^ j" "x < 2 * (1 / 2 ^ j)"
    "1 / 2 ^ j \<le> x \<or> j = lo"
    by auto
  have p: "(2::real) powi (- int j) = 1 / 2 ^ j"
    by (simp add: power_int_minus field_simps)
  from False j show ?thesis
    by (intro exI [of _ "- int j"]) (auto simp: binade_def p)
qed


lemma power_int_less_imp_less:
  assumes "(2::real) powi a < 2 powi b"
  shows "a < b"
proof (rule ccontr)
  assume "\<not> a < b"
  then have "b \<le> a" by simp
  then have "(2::real) powi b \<le> 2 powi a" by (rule power_int_increasing) simp
  with assms show False by simp
qed

lemma round_value_bracket:
  assumes "0 < x" and "x < 2 ^ (hi + 1)" and "0 < prec"
  shows "\<exists>e::int. binade lo hi x = 2 powi e \<and> - int lo \<le> e \<and> e \<le> int hi \<and>
           x < 2 * 2 powi e \<and> (2 powi e \<le> x \<or> e = - int lo) \<and>
           0 \<le> round_value prec lo hi x \<and> round_value prec lo hi x \<le> 2 * 2 powi e \<and>
           (2 powi e \<le> x \<longrightarrow> 2 powi e \<le> round_value prec lo hi x) \<and>
           (x < 2 powi e \<longrightarrow> round_value prec lo hi x \<le> 2 powi e)"
proof -
  from binade_spec [OF assms(1,2), of lo]
  obtain e :: int where e: "binade lo hi x = 2 powi e" "- int lo \<le> e" "e \<le> int hi"
    "x < 2 * 2 powi e" "2 powi e \<le> x \<or> e = - int lo"
    by blast
  define B :: real where "B = 2 powi e"
  define u where "u = B / 2 ^ (prec - 1)"
  have B: "0 < B" by (simp add: B_def)
  then have u: "0 < u" by (simp add: u_def)
  have rv: "round_value prec lo hi x = of_int (round_even (x / u)) * u"
    by (simp add: round_value_def e(1) u_def B_def)
  from assms(3) have two: "(2::real) ^ prec = 2 * 2 ^ (prec - 1)"
    by (cases prec) simp_all
  have Bu: "B = of_int (2 ^ (prec - 1)) * u" by (simp add: u_def)
  have Bu2: "2 * B = of_int (2 ^ prec) * u" by (simp add: u_def two)
  have "of_int 0 \<le> x / u" using assms(1) u by simp
  then have "0 \<le> round_even (x / u)" by (rule round_even_ge)
  with u have nonneg: "0 \<le> round_value prec lo hi x" by (simp add: rv)
  from e(4) u have "x / u \<le> of_int (2 ^ prec)"
    by (simp add: B_def [symmetric] Bu2 pos_divide_le_eq)
  then have "round_even (x / u) \<le> 2 ^ prec" by (rule round_even_le)
  then have "real_of_int (round_even (x / u)) \<le> of_int (2 ^ prec)" by (simp only: of_int_le_iff)
  with u have upper: "round_value prec lo hi x \<le> 2 * B"
    unfolding rv Bu2 by (intro mult_right_mono) simp_all
  have lower: "B \<le> round_value prec lo hi x" if "B \<le> x"
  proof -
    from that u have "of_int (2 ^ (prec - 1)) \<le> x / u"
      by (subst (asm) Bu) (simp add: pos_le_divide_eq)
    then have "2 ^ (prec - 1) \<le> round_even (x / u)" by (rule round_even_ge)
    then have "real_of_int (2 ^ (prec - 1)) \<le> of_int (round_even (x / u))"
      by (simp only: of_int_le_iff)
    with u show ?thesis unfolding rv by (subst Bu) (intro mult_right_mono, simp_all)
  qed
  have small: "round_value prec lo hi x \<le> B" if "x < B"
  proof -
    from that u have "x / u \<le> of_int (2 ^ (prec - 1))"
      by (subst (asm) Bu) (simp add: pos_divide_le_eq)
    then have "round_even (x / u) \<le> 2 ^ (prec - 1)" by (rule round_even_le)
    then have "real_of_int (round_even (x / u)) \<le> of_int (2 ^ (prec - 1))"
      by (simp only: of_int_le_iff)
    with u show ?thesis unfolding rv by (subst Bu) (intro mult_right_mono, simp_all)
  qed
  from e nonneg upper lower small show ?thesis
    unfolding B_def by blast
qed

lemma round_value_mono:
  assumes "0 < x" and "x \<le> y" and "y < 2 ^ (hi + 1)" and "0 < prec"
  shows "round_value prec lo hi x \<le> round_value prec lo hi y"
proof -
  from assms have x2: "x < 2 ^ (hi + 1)" and y0: "0 < y" by simp_all
  from round_value_bracket [OF assms(1) x2 assms(4), of lo]
  obtain ex :: int where ex: "binade lo hi x = 2 powi ex"
    "2 powi ex \<le> x \<or> ex = - int lo" "- int lo \<le> ex"
    "round_value prec lo hi x \<le> 2 * 2 powi ex"
    by blast
  from round_value_bracket [OF y0 assms(3,4), of lo]
  obtain ey :: int where ey: "binade lo hi y = 2 powi ey" "- int lo \<le> ey"
    "y < 2 * 2 powi ey" "2 powi ey \<le> y \<or> ey = - int lo"
    "2 powi ey \<le> y \<longrightarrow> 2 powi ey \<le> round_value prec lo hi y"
    by blast
  have twice: "2 * (2::real) powi ey = 2 powi (ey + 1)"
    by (simp add: power_int_add_1')
  have le: "ex \<le> ey"
  proof (cases "2 powi ex \<le> x")
    case True
    with assms(2) ey(3) have "(2::real) powi ex < 2 powi (ey + 1)" by (simp add: twice)
    then have "ex < ey + 1" by (rule power_int_less_imp_less)
    then show ?thesis by simp
  next
    case False
    with ex(2) ey(2) show ?thesis by simp
  qed
  show ?thesis
  proof (cases "ex = ey")
    case True
    define u :: real where "u = 2 powi ey / 2 ^ (prec - 1)"
    have u: "0 < u" by (simp add: u_def)
    with assms(2) have "x / u \<le> y / u" by (simp add: divide_right_mono)
    then have "round_even (x / u) \<le> round_even (y / u)" by (rule round_even_mono)
    then have "real_of_int (round_even (x / u)) \<le> of_int (round_even (y / u))"
      by (simp only: of_int_le_iff)
    with u have "of_int (round_even (x / u)) * u \<le> of_int (round_even (y / u)) * u"
      by (intro mult_right_mono) simp_all
    then show ?thesis
      by (simp add: round_value_def ex(1) ey(1) True u_def)
  next
    case False
    with le have lt: "ex + 1 \<le> ey" by simp
    with ey(4) ex(3) have "2 powi ey \<le> y"
      by (cases "2 powi ey \<le> y") auto
    with ey(5) have "2 powi ey \<le> round_value prec lo hi y" by simp
    moreover from lt have "(2::real) powi (ex + 1) \<le> 2 powi ey"
      by (rule power_int_increasing) simp
    moreover have "2 * (2::real) powi ex = 2 powi (ex + 1)"
      by (simp add: power_int_add_1')
    ultimately show ?thesis using ex(4) by linarith
  qed
qed

text \<open>Rounding of non-negative numbers is monotone, and overflows upwards only.\<close>

lemma round_pos_nonneg:
  assumes "0 \<le> x" and "0 < prec" and "round_pos prec lo hi x = Fin a"
  shows "0 \<le> a"
proof (cases "x = 0")
  case True
  with assms(3) show ?thesis by (simp add: round_pos_def)
next
  case False
  with assms have x: "0 < x" "x < 2 ^ (hi + 1)" "a = round_value prec lo hi x"
    by (auto simp: round_pos_def split: if_splits)
  from round_value_bracket [OF x(1,2) assms(2), of lo] x(3) show ?thesis by blast
qed

lemma round_pos_mono:
  assumes "0 \<le> x" and "x \<le> y" and "0 < prec" and "round_pos prec lo hi y = Fin b"
  shows "\<exists>a. round_pos prec lo hi x = Fin a \<and> 0 \<le> a \<and> a \<le> b"
proof (cases "x = 0")
  case True
  from assms have "0 \<le> y" by simp
  from round_pos_nonneg [OF this assms(3,4)] True show ?thesis
    by (simp add: round_pos_def)
next
  case False
  with assms(1) have x: "0 < x" by simp
  with assms(2) have "y \<noteq> 0" by simp
  with assms(4) have y: "y < 2 ^ (hi + 1)" "round_value prec lo hi y < 2 ^ (hi + 1)"
    "b = round_value prec lo hi y"
    by (auto simp: round_pos_def split: if_splits)
  from round_value_mono [OF x assms(2) y(1) assms(3), of lo]
  have le: "round_value prec lo hi x \<le> round_value prec lo hi y" .
  with y(2) assms(2) y(1) False
  have "round_pos prec lo hi x = Fin (round_value prec lo hi x)"
    by (simp add: round_pos_def)
  moreover from assms(2) y(1) have "x < 2 ^ (hi + 1)" by simp
  from round_value_bracket [OF x this assms(3), of lo]
  have "0 \<le> round_value prec lo hi x" by blast
  ultimately show ?thesis using le y(3) by simp
qed

lemma round32_mono:
  assumes "0 \<le> x" and "x \<le> y" and "round32 y = Fin b"
  shows "\<exists>a. round32 x = Fin a \<and> 0 \<le> a \<and> a \<le> b"
proof -
  from assms have "0 \<le> y" by simp
  with assms(3) have "round_pos 24 126 127 y = Fin b"
    by (simp add: round32_def round_float_def)
  from round_pos_mono [OF assms(1,2) _ this] assms(1) show ?thesis
    by (simp add: round32_def round_float_def)
qed

lemma round32_1: "round32 1 = Fin 1"
  by (simp add: round_eval)

lemma round32_0: "round32 0 = Fin 0"
  by (simp add: round_eval)

text \<open>Rounding keeps a number between 0 and 1 there.\<close>

lemma round32_unit:
  assumes "0 \<le> x" and "x \<le> 1"
  shows "\<exists>a. round32 x = Fin a \<and> 0 \<le> a \<and> a \<le> 1"
  using round32_mono [OF assms round32_1] .

lemma round32_ge_1:
  assumes "1 \<le> x" and "round32 x = Fin a"
  shows "1 \<le> a"
  using round32_mono [OF _ assms, of] round32_1 by auto


lemma round32_exp_cases:
  "(\<exists>r. round32 (exp x) = Fin r \<and> 0 \<le> r) \<or> round32 (exp x) = PosInf"
proof -
  have pos: "0 \<le> exp x" by simp
  show ?thesis
  proof (cases "round_pos 24 126 127 (exp x)")
    case (Fin r)
    from round_pos_nonneg [OF pos _ Fin] Fin show ?thesis
      by (simp add: round32_def round_float_def)
  next
    case PosInf
    then show ?thesis by (simp add: round32_def round_float_def)
  next
    case NegInf
    then show ?thesis by (simp add: round_pos_def split: if_splits)
  next
    case NaN
    then show ?thesis by (simp add: round_pos_def split: if_splits)
  qed
qed

lemma round32_pos_cases:
  assumes "0 \<le> x"
  shows "(\<exists>r. round32 x = Fin r \<and> 0 \<le> r) \<or> round32 x = PosInf"
proof (cases "round_pos 24 126 127 x")
  case (Fin r)
  from round_pos_nonneg [OF assms _ Fin] Fin assms show ?thesis
    by (simp add: round32_def round_float_def)
next
  case PosInf
  with assms show ?thesis by (simp add: round32_def round_float_def)
next
  case NegInf
  then show ?thesis by (simp add: round_pos_def split: if_splits)
next
  case NaN
  then show ?thesis by (simp add: round_pos_def split: if_splits)
qed

text \<open>
  The three steps of the activation: \<open>e = expf(-x)\<close>, then \<open>s = 1 + e\<close>, then \<open>1 / s\<close>.
\<close>

lemma one_plus_cases:
  assumes "0 \<le> r"
  shows "(\<exists>t. fadd (Fin 1) (Fin r) = Fin t \<and> 1 \<le> t) \<or> fadd (Fin 1) (Fin r) = PosInf"
proof -
  from assms have "0 \<le> 1 + r" by simp
  from round32_pos_cases [OF this] show ?thesis
  proof
    assume "\<exists>t. round32 (1 + r) = Fin t \<and> 0 \<le> t"
    then obtain t where t: "round32 (1 + r) = Fin t" by blast
    from assms have "1 \<le> 1 + r" by simp
    from round32_mono [OF _ this t] round32_1 have "1 \<le> t" by auto
    with t show ?thesis by (simp add: fadd_def)
  next
    assume "round32 (1 + r) = PosInf"
    then show ?thesis by (simp add: fadd_def)
  qed
qed

lemma one_over_range:
  assumes "1 \<le> t"
  shows "\<exists>y. fdiv (Fin 1) (Fin t) = Fin y \<and> 0 \<le> y \<and> y \<le> 1"
proof -
  from assms have "0 \<le> 1 / t" "1 / t \<le> 1" by simp_all
  from round32_unit [OF this] assms show ?thesis by (simp add: fdiv_def)
qed

lemma sigmoid32_range: "\<exists>y. sigmoid32 (Fin x) = Fin y \<and> 0 \<le> y \<and> y \<le> 1"
proof -
  from round32_exp_cases [of "- x"] show ?thesis
  proof
    assume "\<exists>r. round32 (exp (- x)) = Fin r \<and> 0 \<le> r"
    then obtain r where r: "round32 (exp (- x)) = Fin r" "0 \<le> r" by blast
    from one_plus_cases [OF r(2)] show ?thesis
    proof
      assume "\<exists>t. fadd (Fin 1) (Fin r) = Fin t \<and> 1 \<le> t"
      then obtain t where t: "fadd (Fin 1) (Fin r) = Fin t" "1 \<le> t" by blast
      from one_over_range [OF t(2)] r(1) t(1) show ?thesis by (simp add: sigmoid32_def)
    next
      assume "fadd (Fin 1) (Fin r) = PosInf"
      with r(1) show ?thesis by (simp add: sigmoid32_def fdiv_def)
    qed
  next
    assume "round32 (exp (- x)) = PosInf"
    then show ?thesis by (simp add: sigmoid32_def fdiv_def fadd_def)
  qed
qed

lemma sigmoid32_mono:
  assumes "x \<le> x'" and "sigmoid32 (Fin x) = Fin y" and "sigmoid32 (Fin x') = Fin y'"
  shows "y \<le> y'"
proof -
  from sigmoid32_range [of x'] assms(3) have y': "0 \<le> y'" by simp
  from assms(1) have E: "exp (- x') \<le> exp (- x)" by simp
  from round32_exp_cases [of "- x"] show ?thesis
  proof
    assume "\<exists>r. round32 (exp (- x)) = Fin r \<and> 0 \<le> r"
    then obtain r where r: "round32 (exp (- x)) = Fin r" "0 \<le> r" by blast
    from round32_mono [OF _ E r(1)]
    obtain r' where r': "round32 (exp (- x')) = Fin r'" "0 \<le> r'" "r' \<le> r" by auto
    from one_plus_cases [OF r(2)] show ?thesis
    proof
      assume "\<exists>t. fadd (Fin 1) (Fin r) = Fin t \<and> 1 \<le> t"
      then obtain t where t: "fadd (Fin 1) (Fin r) = Fin t" "1 \<le> t" by blast
      then have rt: "round32 (1 + r) = Fin t" by (simp add: fadd_def)
      from r' have "0 \<le> 1 + r'" "1 + r' \<le> 1 + r" by simp_all
      from round32_mono [OF this rt]
      obtain t' where t': "round32 (1 + r') = Fin t'" "t' \<le> t" by auto
      from r'(2) have "1 \<le> 1 + r'" by simp
      from round32_mono [OF _ this t'(1)] round32_1 have t'1: "1 \<le> t'" by auto
      from assms(2) r(1) t(1) t(2) have y: "round32 (1 / t) = Fin y"
        by (simp add: sigmoid32_def fdiv_def)
      from assms(3) r'(1) t'(1) t'1 have "round32 (1 / t') = Fin y'"
        by (simp add: sigmoid32_def fdiv_def fadd_def)
      moreover from t'1 t'(2) have "0 \<le> 1 / t" "1 / t \<le> 1 / t'"
        by (simp_all add: frac_le)
      ultimately show ?thesis using round32_mono [of "1 / t" "1 / t'" y'] y by auto
    next
      assume "fadd (Fin 1) (Fin r) = PosInf"
      with assms(2) r(1) have "y = 0" by (simp add: sigmoid32_def fdiv_def)
      with y' show ?thesis by simp
    qed
  next
    assume "round32 (exp (- x)) = PosInf"
    with assms(2) have "y = 0" by (simp add: sigmoid32_def fdiv_def fadd_def)
    with y' show ?thesis by simp
  qed
qed

lemma exp_ge_two_power: "2 ^ n \<le> exp (real n)"
proof -
  have "(2::real) \<le> exp 1" using exp_ge_add_one_self [of 1] by simp
  then have "(2::real) ^ n \<le> exp 1 ^ n" by (intro power_mono) simp_all
  also have "\<dots> = exp (real n)" by (simp add: exp_of_nat_mult [symmetric])
  finally show ?thesis .
qed

lemma sigmoid32_100: "sigmoid32 (Fin 100) = Fin 1"
proof -
  have "exp (- 100 :: real) = inverse (exp (real 100))" by (simp add: exp_minus)
  also have "\<dots> \<le> inverse (2 ^ 100)"
    using exp_ge_two_power [of 100] by (intro le_imp_inverse_le) simp_all
  also have "\<dots> \<le> 1 / 2 ^ 30" by (simp add: field_simps)
  finally have small: "exp (- 100 :: real) \<le> 1 / 2 ^ 30" .
  have a: "round32 (1 / 2 ^ 30) = Fin (1 / 2 ^ 30)" by (simp add: round_eval)
  from round32_mono [OF _ small a]
  obtain r where r: "round32 (exp (- 100)) = Fin r" "0 \<le> r" "r \<le> 1 / 2 ^ 30" by auto
  have b: "round32 (1 + 1 / 2 ^ 30) = Fin 1" by (simp add: round_eval)
  from r have "0 \<le> 1 + r" "1 + r \<le> 1 + 1 / 2 ^ 30" by simp_all
  from round32_mono [OF this b]
  obtain t where t: "round32 (1 + r) = Fin t" "t \<le> 1" by auto
  from r(2) have "1 \<le> 1 + r" by simp
  from round32_mono [OF _ this t(1)] round32_1 have "1 \<le> t" by auto
  with t have "round32 (1 + r) = Fin 1" by simp
  with r(1) show ?thesis
    by (simp add: sigmoid32_def fdiv_def fadd_def round32_1)
qed

lemma sigmoid32_minus_200: "sigmoid32 (Fin (- 200)) = Fin 0"
proof -
  have "(2::real) ^ 128 \<le> 2 ^ 200" by simp
  also have "\<dots> \<le> exp (real 200)" by (rule exp_ge_two_power)
  finally have big: "(2::real) ^ 128 \<le> exp 200" by simp
  then have "exp (200::real) \<noteq> 0" "0 \<le> exp (200::real)" by simp_all
  with big have "round32 (exp 200) = PosInf"
    by (simp add: round32_def round_float_def round_pos_def)
  then show ?thesis
    by (simp add: sigmoid32_def fdiv_def fadd_def)
qed

lemma float_div_range:
  assumes "c \<le> n" and "0 < n" and "n < 2 ^ 31"
  shows "\<exists>a. float_div c n = Fin a \<and> 0 \<le> a \<and> a \<le> 1"
proof -
  have top: "round32 (2 ^ 31) = Fin (2 ^ 31)" by (simp add: round_eval)
  from assms(3) have "real n \<le> 2 ^ 31"
    by (metis less_imp_le of_nat_le_iff of_nat_numeral of_nat_power)
  from round32_mono [OF _ this top]
  obtain n' where n': "round32 (real n) = Fin n'" by auto
  from assms(2) have "1 \<le> real n" by simp
  from round32_mono [OF _ this n'] round32_1 have n1: "1 \<le> n'" by auto
  from assms(1) have "real c \<le> real n" by simp
  from round32_mono [OF _ this n']
  obtain c' where c': "round32 (real c) = Fin c'" "0 \<le> c'" "c' \<le> n'" by auto
  from n1 c' have "0 \<le> c' / n'" "c' / n' \<le> 1" by simp_all
  from round32_unit [OF this] n1 c'(1) n' show ?thesis
    by (simp add: float_div_def fdiv_def int_to_float_def)
qed

section \<open>Properties of custom_strlen\<close>

lemma strlen_loop_Some:
  "strlen_loop str n = Some m \<Longrightarrow>
     n \<le> m \<and> m < length str \<and> str ! m = NUL \<and> (\<forall>k. n \<le> k \<and> k < m \<longrightarrow> str ! k \<noteq> NUL)"
proof (induction str n rule: strlen_loop.induct)
  case (1 str n)
  note unfold = strlen_loop.simps [of str n]
  show ?case
  proof (cases "n < length str \<and> str ! n \<noteq> NUL")
    case True
    with "1.prems" unfold have rec: "strlen_loop str (n + 1) = Some m"
      by simp
    from "1.IH" True rec
    have ih: "n + 1 \<le> m \<and> m < length str \<and> str ! m = NUL
              \<and> (\<forall>k. n + 1 \<le> k \<and> k < m \<longrightarrow> str ! k \<noteq> NUL)"
      by blast
    have "str ! k \<noteq> NUL" if k: "n \<le> k \<and> k < m" for k
    proof (cases "k = n")
      case True
      with \<open>n < length str \<and> str ! n \<noteq> NUL\<close> show ?thesis by simp
    next
      case False
      with k have "n + 1 \<le> k \<and> k < m" by simp
      with ih show ?thesis by blast
    qed
    with ih show ?thesis by simp
  next
    case False
    with "1.prems" unfold have "n < length str \<and> str ! n = NUL \<and> m = n"
      by (simp split: if_splits)
    then show ?thesis by auto
  qed
qed

lemma strlen_loop_terminated:
  "n \<le> k \<Longrightarrow> k < length str \<Longrightarrow> str ! k = NUL \<Longrightarrow> \<exists>m. strlen_loop str n = Some m"
proof (induction str n rule: strlen_loop.induct)
  case (1 str n)
  note unfold = strlen_loop.simps [of str n]
  from "1.prems" have n: "n < length str" by simp
  show ?case
  proof (cases "str ! n \<noteq> NUL")
    case True
    with "1.prems" have "n + 1 \<le> k" by (cases "k = n") auto
    with "1.IH" [OF n True] "1.prems" have "\<exists>m. strlen_loop str (n + 1) = Some m" by blast
    with n True unfold show ?thesis by simp
  next
    case False
    with n unfold show ?thesis by simp
  qed
qed

lemma custom_strlen_Some:
  "custom_strlen str = Some m \<Longrightarrow>
     m < length str \<and> str ! m = NUL \<and> (\<forall>k < m. str ! k \<noteq> NUL)"
  using strlen_loop_Some [of str 0 m] by (simp add: custom_strlen_def)

lemma custom_strlen_wf:
  "wf_post W p \<Longrightarrow> \<exists>m. custom_strlen (text_buf p) = Some m \<and> m < W"
proof -
  assume wf: "wf_post W p"
  then obtain k where k: "k < length (text_buf p)" "text_buf p ! k = NUL"
    by (auto simp: wf_post_def in_set_conv_nth)
  then obtain m where m: "custom_strlen (text_buf p) = Some m"
    using strlen_loop_terminated [of 0 k "text_buf p"] by (auto simp: custom_strlen_def)
  with custom_strlen_Some [OF m] wf show ?thesis
    by (simp add: wf_post_def)
qed

section \<open>Properties of tokenizeAndEmbed\<close>

lemma embed_row_spec:
  assumes "custom_strlen (text_buf (dataset ! i)) = Some len"
    and "i * W + len \<le> length t" and "j \<le> len" and "i * W + len \<le> INT_MAX"
  shows "\<exists>t'. embed_row sg W dataset i j t = Some t' \<and> length t' = length t \<and>
           (\<forall>p < length t. t' ! p =
              (if i * W + j \<le> p \<and> p < i * W + len
               then char_to_float sg (text_buf (dataset ! i) ! (p - i * W))
               else t ! p))"
  using assms
proof (induction sg W dataset i j t rule: embed_row.induct)
  case (1 sg W dataset i j token_ids)
  note unfold = embed_row.simps [of sg W dataset i j token_ids]
  let ?v = "char_to_float sg (text_buf (dataset ! i) ! j)"
  let ?u = "token_ids[i * W + j := ?v]"
  show ?case
  proof (cases "j < len")
    case True
    with "1.prems" have inr: "i * W + j \<le> INT_MAX \<and> i * W + j < length token_ids" by simp
    from True have j1: "j + 1 \<le> len" by simp
    from "1.prems" have len_u: "i * W + len \<le> length ?u" by simp
    from "1.IH" [OF "1.prems"(1) True inr "1.prems"(1) len_u j1 "1.prems"(4)]
    obtain t' where t': "embed_row sg W dataset i (j + 1) ?u = Some t'"
      "length t' = length ?u"
      "\<forall>p < length ?u. t' ! p =
          (if i * W + (j + 1) \<le> p \<and> p < i * W + len
           then char_to_float sg (text_buf (dataset ! i) ! (p - i * W))
           else ?u ! p)"
      by blast
    from unfold "1.prems"(1) True inr t'(1)
    have res: "embed_row sg W dataset i j token_ids = Some t'" by simp
    have "t' ! p =
            (if i * W + j \<le> p \<and> p < i * W + len
             then char_to_float sg (text_buf (dataset ! i) ! (p - i * W))
             else token_ids ! p)" if p: "p < length token_ids" for p
    proof (cases "p = i * W + j")
      case True
      with t'(3) p inr \<open>j < len\<close> show ?thesis by simp
    next
      case False
      with t'(3) p show ?thesis by auto
    qed
    with res t'(2) show ?thesis by simp
  next
    case False
    with "1.prems" have "j = len" by simp
    with unfold "1.prems"(1) show ?thesis by auto
  qed
qed


lemma row_index:
  fixes W :: nat
  assumes "c < W" and "len < W"
  shows "(i * W \<le> r * W + c \<and> r * W + c < i * W + len) = (r = i \<and> c < len)"
proof (cases "r < i")
  case True
  then have "(r + 1) * W \<le> i * W" by (intro mult_le_mono1) simp
  with assms show ?thesis using True by (simp add: algebra_simps)
next
  case False
  show ?thesis
  proof (cases "r = i")
    case True
    then show ?thesis by simp
  next
    case False
    with \<open>\<not> r < i\<close> have "(i + 1) * W \<le> r * W" by (intro mult_le_mono1) simp
    with assms False show ?thesis by (simp add: algebra_simps)
  qed
qed

lemma embed_rows_spec:
  assumes "\<forall>r < n. wf_post W (dataset ! r)"
    and "n \<le> length dataset" and "n * W \<le> length t" and "n * W \<le> INT_MAX"
  shows "\<exists>t'. embed_rows sg W dataset i n t = Some t' \<and> length t' = length t \<and>
           (\<forall>r < n. \<forall>c < W. \<forall>len. custom_strlen (text_buf (dataset ! r)) = Some len \<longrightarrow>
              t' ! (r * W + c) =
                (if i \<le> r \<and> c < len
                 then char_to_float sg (text_buf (dataset ! r) ! c)
                 else t ! (r * W + c)))"
  using assms
proof (induction sg W dataset i n t rule: embed_rows.induct)
  case (1 sg W dataset i n t)
  note unfold = embed_rows.simps [of sg W dataset i n t]
  show ?case
  proof (cases "i < n")
    case False
    with unfold show ?thesis by auto
  next
    case True
    with "1.prems" have idx: "i < length dataset" by simp
    from True "1.prems" obtain li where li: "custom_strlen (text_buf (dataset ! i)) = Some li" "li < W"
      using custom_strlen_wf [of W "dataset ! i"] by blast
    from True have "(i + 1) * W \<le> n * W" by (intro mult_le_mono1) simp
    with li "1.prems" have fits: "i * W + li \<le> length t" "i * W + li \<le> INT_MAX"
      by (simp_all add: algebra_simps)
    from embed_row_spec [OF li(1) fits(1) _ fits(2), of 0 sg]
    obtain t1 where t1: "embed_row sg W dataset i 0 t = Some t1" "length t1 = length t"
      "\<forall>p < length t. t1 ! p =
          (if i * W + 0 \<le> p \<and> p < i * W + li
           then char_to_float sg (text_buf (dataset ! i) ! (p - i * W))
           else t ! p)"
      by auto
    from "1.prems" t1(2) have len1: "n * W \<le> length t1" by simp
    from "1.IH" [OF True idx t1(1) "1.prems"(1) "1.prems"(2) len1 "1.prems"(4)]
    obtain t' where t': "embed_rows sg W dataset (i + 1) n t1 = Some t'" "length t' = length t1"
      "\<forall>r < n. \<forall>c < W. \<forall>len. custom_strlen (text_buf (dataset ! r)) = Some len \<longrightarrow>
          t' ! (r * W + c) =
            (if i + 1 \<le> r \<and> c < len
             then char_to_float sg (text_buf (dataset ! r) ! c)
             else t1 ! (r * W + c))"
      by blast
    from unfold True idx t1(1) t'(1) have res: "embed_rows sg W dataset i n t = Some t'"
      by simp
    have "t' ! (r * W + c) =
            (if i \<le> r \<and> c < len
             then char_to_float sg (text_buf (dataset ! r) ! c)
             else t ! (r * W + c))"
      if r: "r < n" and c: "c < W" and len: "custom_strlen (text_buf (dataset ! r)) = Some len"
      for r c len
    proof -
      from r have "(r + 1) * W \<le> n * W" by (intro mult_le_mono1) simp
      with c "1.prems" have p: "r * W + c < length t" by (simp add: algebra_simps)
      from t'(3) r c len
      have a: "t' ! (r * W + c) =
            (if i + 1 \<le> r \<and> c < len
             then char_to_float sg (text_buf (dataset ! r) ! c)
             else t1 ! (r * W + c))" by blast
      from t1(3) p
      have b: "t1 ! (r * W + c) =
          (if i * W \<le> r * W + c \<and> r * W + c < i * W + li
           then char_to_float sg (text_buf (dataset ! i) ! (r * W + c - i * W))
           else t ! (r * W + c))" by simp
      note ri = row_index [OF c li(2), of i r]
      show ?thesis
      proof (cases "r = i")
        case True
        with a b ri len li show ?thesis by simp
      next
        case False
        with a b ri show ?thesis by auto
      qed
    qed
    with res t'(2) t1(2) show ?thesis by simp
  qed
qed

lemma tokenizeAndEmbed_entries:
  assumes "\<forall>r < n. wf_post W (dataset ! r)"
    and "n \<le> length dataset" and "n * W \<le> length t" and "n * W \<le> INT_MAX"
  shows "\<exists>t'. tokenizeAndEmbed sg W dataset t n = Some t' \<and> length t' = length t \<and>
           (\<forall>r < n. \<forall>len. custom_strlen (text_buf (dataset ! r)) = Some len \<longrightarrow>
              (\<forall>c < len. t' ! (r * W + c) =
                  char_to_float sg (text_buf (dataset ! r) ! c)) \<and>
              (\<forall>c. len \<le> c \<and> c < W \<longrightarrow> t' ! (r * W + c) = t ! (r * W + c)))"
proof -
  from embed_rows_spec [OF assms, of sg 0]
  obtain t' where t': "embed_rows sg W dataset 0 n t = Some t'" "length t' = length t"
    "\<forall>r < n. \<forall>c < W. \<forall>len. custom_strlen (text_buf (dataset ! r)) = Some len \<longrightarrow>
        t' ! (r * W + c) =
          (if 0 \<le> r \<and> c < len
           then char_to_float sg (text_buf (dataset ! r) ! c)
           else t ! (r * W + c))"
    by blast
  have "(\<forall>c < len. t' ! (r * W + c) =
            char_to_float sg (text_buf (dataset ! r) ! c)) \<and>
        (\<forall>c. len \<le> c \<and> c < W \<longrightarrow> t' ! (r * W + c) = t ! (r * W + c))"
    if r: "r < n" and len: "custom_strlen (text_buf (dataset ! r)) = Some len" for r len
  proof -
    from assms(1) r have "wf_post W (dataset ! r)" by simp
    with custom_strlen_wf [of W "dataset ! r"] len have lw: "len < W" by auto
    from t'(3) r len have
      "\<forall>c < W. t' ! (r * W + c) =
          (if c < len then char_to_float sg (text_buf (dataset ! r) ! c)
           else t ! (r * W + c))" by simp
    with lw show ?thesis by auto
  qed
  with t'(1,2) show ?thesis by (simp add: tokenizeAndEmbed_def)
qed

lemma of_char_int_nat: "(of_char c :: int) = int (of_char c)"
  by (simp only: of_nat_of_char)

lemma ascii_entry_range:
  assumes "(of_char c :: nat) < 128"
  shows "char_to_int sg c = of_char c \<and>
         (\<exists>a. char_to_float sg c = Fin a \<and> 0 \<le> a \<and> a \<le> 1)"
proof -
  from assms have c: "(of_char c :: int) < 128" "0 \<le> (of_char c :: int)"
    by (simp_all add: of_char_int_nat)
  then have v: "char_to_int sg c = of_char c" by (simp add: char_to_int_def)
  have top: "round32 255 = Fin 255" by (simp add: round_eval)
  from c have "0 \<le> real_of_int (of_char c)" "real_of_int (of_char c) \<le> 255" by simp_all
  from round32_mono [OF this top]
  obtain n where n: "round32 (real_of_int (of_char c)) = Fin n" "0 \<le> n" "n \<le> 255" by blast
  then have "0 \<le> n / 255" "n / 255 \<le> 1" by simp_all
  from round32_unit [OF this] n(1) v show ?thesis
    by (simp add: char_to_float_def int_to_float_def fdiv_def)
qed

lemmas embed_eval = tokenizeAndEmbed_def embed_rows.simps embed_row.simps custom_strlen_def
  strlen_loop.simps NUL_def char_to_int_def char_to_float_def int_to_float_def fdiv_def
  INT_MAX_def

lemma safe_malloc_4:
  "safe_malloc (\<lambda>name sz. True) heap 4 name =
     Returns [heap name 0, heap name 1, heap name 2, heap name 3]"
proof -
  have "[0..<4] = [0, 1, 2, 3::nat]"
    by (simp add: upt_rec)
  then show ?thesis by (simp add: safe_malloc_def)
qed

text \<open>
  The scenario of the text "ab" in a row of width 4 that holds zeros: the two entries
  written are the single-precision quotients of 97 and 98 by 255.
\<close>

lemma tokenizeAndEmbed_ab:
  "tokenizeAndEmbed sg 4 [\<lparr>text_buf = ''ab'' @ [NUL, NUL], label = 4\<rparr>]
     [Fin 0, Fin 0, Fin 0, Fin 0] 1
     = Some [Fin (12763843 / 33554432), Fin (12895429 / 33554432), Fin 0, Fin 0]"
  by (simp add: embed_eval) (simp add: round_eval)

text \<open>
  C1. The claim: after vectorization every position of a row at or beyond the length of
  the record's text is exactly 0.0, never unwritten garbage. The code never writes these
  positions, and the block comes from \<^verbatim>\<open>safe_malloc\<close>, which does not clear it: on a block
  that holds 7.0 everywhere, the text "ab" in a row of width 4 leaves 7.0 in the two
  padding positions; the two entries written are the single-precision quotients of 97
  and 98 by 255. (\<open>tokenizeAndEmbed_entries\<close> above shows the same for every input: a
  padding position keeps what the block held before the call.)
\<close>

theorem tokenizeAndEmbed_padding_keeps_heap_contents:
  "safe_malloc (\<lambda>name sz. True) (\<lambda>name k. Fin 7) 4 ''trainTokenIds''
     = Returns [Fin 7, Fin 7, Fin 7, Fin 7]
   \<and> tokenizeAndEmbed sg 4 [\<lparr>text_buf = [CHR ''a'', CHR ''b'', NUL, NUL], label = 4\<rparr>]
       [Fin 7, Fin 7, Fin 7, Fin 7] 1
     = Some [Fin (12763843 / 33554432), Fin (12895429 / 33554432), Fin 7, Fin 7]"
  by (simp add: safe_malloc_4) (simp add: embed_eval, simp add: round_eval)

text \<open>
  C4. The claim: every written entry is \<open>ord(text[j]) / 255\<close> and lies in \<open>[0, 1]\<close>. Where
  plain \<^verbatim>\<open>char\<close> is signed, the byte \<open>0xE9\<close> has the value \<open>-23\<close>, and the entry written
  for it is the single-precision quotient of -23 by 255, a negative number. (For bytes
  below 128 the entry is the single-precision quotient of the character code by 255 and
  lies in \<open>[0, 1]\<close> on every platform: \<open>tokenizeAndEmbed_entries\<close> with
  \<open>ascii_entry_range\<close>, and \<open>tokenizeAndEmbed_ab\<close> for the scenario of the text "ab".)
\<close>

theorem tokenizeAndEmbed_signed_char_negative:
  "tokenizeAndEmbed True 4 [\<lparr>text_buf = [CHR 0xE9, NUL, NUL, NUL], label = 0\<rparr>]
     [Fin 0, Fin 0, Fin 0, Fin 0] 1
     = Some [Fin (- (12105913 / 134217728)), Fin 0, Fin 0, Fin 0]
   \<and> (- (12105913 / 134217728) :: real) < 0"
  by (simp add: embed_eval) (simp add: round_eval)

section \<open>Properties of evaluate\<close>

lemma count_correct_spec:
  assumes "n \<le> length outputs" and "n \<le> length labels"
  shows "count_correct outputs labels i n c =
           Some (c + length [k \<leftarrow> [i..<n]. predicted_label (outputs ! k) = labels ! k])"
  using assms
proof (induction outputs labels i n c rule: count_correct.induct)
  case (1 outputs labels i n c)
  note unfold = count_correct.simps [of outputs labels i n c]
  show ?case
  proof (cases "i < n")
    case True
    with "1.prems" have inr: "i < length outputs \<and> i < length labels" by simp
    from True have upt: "[i..<n] = i # [i + 1..<n]" by (simp add: upt_conv_Cons)
    from "1.IH" [OF True inr "1.prems"] unfold True inr show ?thesis
      by (simp add: upt)
  next
    case False
    with unfold show ?thesis by simp
  qed
qed

text \<open>
  When is an output predicted positive: when it is a number above \<^verbatim>\<open>0.6f\<close> or the
  positive infinity; a NaN is predicted negative.
\<close>

lemma predicted_label_4:
  "predicted_label x = 4 \<longleftrightarrow> x = PosInf \<or> (\<exists>r. x = Fin r \<and> 5033165 / 8388608 < r)"
  by (cases x) (simp_all add: predicted_label_def float_0_6_def)

lemma predicted_label_0:
  "predicted_label x = 0 \<longleftrightarrow> \<not> (x = PosInf \<or> (\<exists>r. x = Fin r \<and> 5033165 / 8388608 < r))"
  by (cases x) (simp_all add: predicted_label_def float_0_6_def)

text \<open>A natural number up to \<open>2 ^ 24\<close> converts to \<^verbatim>\<open>float\<close> without rounding.\<close>

lemma round32_nat_exact:
  assumes "m \<le> 2 ^ 24"
  shows "round32 (real m) = Fin (real m)"
proof (cases "m = 0")
  case True
  then show ?thesis by (simp add: round32_0)
next
  case False
  then have m1: "1 \<le> real m" by simp
  from assms have "real m \<le> 2 ^ 24"
    by (metis of_nat_le_iff of_nat_numeral of_nat_power)
  then have m2: "real m < 1 * 2 ^ (127 + 1)"
    by (rule le_less_trans) simp
  from binade_up_spec [of 1 "real m" 127, OF _ m1 m2]
  obtain j where j: "binade_up 127 1 (real m) = 2 ^ j" "2 ^ j \<le> real m" "real m < 2 * 2 ^ j"
    by auto
  from j(2) \<open>real m \<le> 2 ^ 24\<close> have "(2::real) ^ j \<le> 2 ^ 24" by (rule order_trans)
  then have j24: "j \<le> 24"
    using power_increasing_iff [of "2::real" j 24] by simp
  define u :: real where "u = 2 ^ j / 2 ^ 23"
  have rv: "round_value 24 126 127 (real m) = of_int (round_even (real m / u)) * u"
    using m1 by (simp add: round_value_def binade_def j(1) u_def)
  have exact: "of_int (round_even (real m / u)) * u = real m"
  proof (cases "j = 24")
    case True
    with j(2) \<open>real m \<le> 2 ^ 24\<close> have m: "real m = 2 ^ 24" by simp
    from True have "u = 2" by (simp add: u_def)
    with m have "real m / u = of_int (2 ^ 23)" by simp
    then have "round_even (real m / u) = 2 ^ 23" by (simp only: round_even_of_int)
    with m \<open>u = 2\<close> show ?thesis by simp
  next
    case False
    with j24 have "j \<le> 23" by simp
    then have p: "(2::real) ^ 23 = 2 ^ (23 - j) * 2 ^ j"
      by (simp add: power_add [symmetric])
    have u': "u = 1 / 2 ^ (23 - j)"
      unfolding u_def p by simp
    then have q: "real m / u = of_int (int m * 2 ^ (23 - j))"
      by simp
    have "round_even (real m / u) = int m * 2 ^ (23 - j)"
      unfolding q by (rule round_even_of_int)
    then show ?thesis by (simp add: u')
  qed
  from \<open>real m \<le> 2 ^ 24\<close> have "\<not> (2::real) ^ 128 \<le> real m" by simp
  with False show ?thesis
    by (simp add: round32_def round_float_def round_pos_def rv exact)
qed

lemma float_div_nearest:
  assumes "0 < n" and "n \<le> 2 ^ 24" and "c \<le> n"
  shows "float_div c n = round32 (real c / real n)"
proof -
  from assms have "c \<le> 2 ^ 24" by simp
  with assms show ?thesis
    by (simp add: float_div_def int_to_float_def fdiv_def round32_nat_exact)
qed

text \<open>
  C3, as amended. For a non-empty pair of outputs and labels of length \<open>n\<close> (in the range
  of \<^verbatim>\<open>int\<close>), a sample counts as correct when its output is above \<^verbatim>\<open>0.6f\<close> (the
  single-precision number \<open>5033165 / 8388608\<close>, a little above 0.6) or infinite and its
  label is 4, or when its output is anything else and its label is 0. \<open>evaluate\<close> returns
  the single-precision quotient of the number of correct samples by \<open>n\<close>, both converted
  to \<^verbatim>\<open>float\<close>; up to \<open>n = 2 ^ 24\<close> that is the exact quotient rounded to single
  precision. The value is a number between 0 and 1.
\<close>

theorem evaluate_accuracy:
  assumes "0 < n" and "n < 2 ^ 31" and "length outputs = n" and "length labels = n"
  shows "evaluate outputs labels n =
           Some (float_div
             (length [i \<leftarrow> [0..<n].
                if outputs ! i = PosInf \<or> (\<exists>r. outputs ! i = Fin r \<and> 5033165 / 8388608 < r)
                then labels ! i = 4 else labels ! i = 0]) n) \<and>
         (n \<le> 2 ^ 24 \<longrightarrow>
            evaluate outputs labels n =
              Some (round32 (real
                (length [i \<leftarrow> [0..<n].
                   if outputs ! i = PosInf \<or> (\<exists>r. outputs ! i = Fin r \<and> 5033165 / 8388608 < r)
                   then labels ! i = 4 else labels ! i = 0]) / real n))) \<and>
         (\<exists>a. evaluate outputs labels n = Some (Fin a) \<and> 0 \<le> a \<and> a \<le> 1)"
proof -
  let ?c = "length [i \<leftarrow> [0..<n].
              if outputs ! i = PosInf \<or> (\<exists>r. outputs ! i = Fin r \<and> 5033165 / 8388608 < r)
              then labels ! i = 4 else labels ! i = 0]"
  have same: "[i \<leftarrow> [0..<n]. predicted_label (outputs ! i) = labels ! i] =
              [i \<leftarrow> [0..<n].
                 if outputs ! i = PosInf \<or> (\<exists>r. outputs ! i = Fin r \<and> 5033165 / 8388608 < r)
                 then labels ! i = 4 else labels ! i = 0]"
  proof (rule filter_cong)
    fix i
    show "(predicted_label (outputs ! i) = labels ! i) =
          (if outputs ! i = PosInf \<or> (\<exists>r. outputs ! i = Fin r \<and> 5033165 / 8388608 < r)
           then labels ! i = 4 else labels ! i = 0)"
      using predicted_label_4 [of "outputs ! i"] predicted_label_0 [of "outputs ! i"]
      by (metis (no_types, lifting))
  qed simp
  from assms have "count_correct outputs labels 0 n 0 =
      Some (length [i \<leftarrow> [0..<n]. predicted_label (outputs ! i) = labels ! i])"
    by (simp add: count_correct_spec)
  with same have ev: "evaluate outputs labels n = Some (float_div ?c n)"
    by (simp add: evaluate_def)
  have "?c \<le> length [0..<n]" by (rule length_filter_le)
  then have le: "?c \<le> n" by simp
  from float_div_range [OF le assms(1,2)]
  obtain a where a: "float_div ?c n = Fin a" "0 \<le> a" "a \<le> 1" by blast
  have near: "float_div ?c n = round32 (real ?c / real n)" if "n \<le> 2 ^ 24"
    using float_div_nearest [OF assms(1) that le] .
  from ev a near show ?thesis by simp
qed

lemmas evaluate_eval = predicted_label_def float_0_6_def float_div_def fdiv_def
  int_to_float_def

theorem evaluate_accuracy_witness:
  "evaluate [Fin 1, Fin 0, PosInf] [4, 4, 0] 3 = Some (Fin (11184811 / 33554432))"
proof -
  have upt: "[0..<3] = [0, 1, 2::nat]" by (simp add: upt_rec)
  have r: "round32 (1 / 3) = Fin (11184811 / 33554432)" by (simp add: round_eval)
  from evaluate_accuracy [of 3 "[Fin 1, Fin 0, PosInf]" "[4, 4, 0]"]
  show ?thesis by (auto simp add: upt r)
qed

text \<open>
  C3 as stated claims that an output strictly greater than 0.6 is predicted positive
  and that the value returned is the quotient of the count by \<open>n\<close>. The output
  \<open>5033165 / 8388608\<close> is greater than 0.6 and is predicted negative: with the label 4 the
  accuracy is 0. With one correct sample of three the value returned is
  \<open>11184811 / 33554432\<close>, which is not a third.
\<close>

theorem evaluate_threshold_and_quotient_are_floats:
  "evaluate [Fin (5033165 / 8388608)] [4] 1 = Some (Fin 0)
   \<and> (0.6 :: real) < 5033165 / 8388608
   \<and> evaluate [Fin (3 / 4), Fin (1 / 2), Fin (7 / 8)] [4, 4, 0] 3 = Some (Fin (11184811 / 33554432))
   \<and> (11184811 / 33554432 :: real) \<noteq> 1 / 3"
proof -
  have a: "evaluate [Fin (5033165 / 8388608)] [4] 1 = Some (Fin 0)"
    by (simp add: evaluate_def count_correct.simps evaluate_eval) (simp add: round_eval)
  have b: "evaluate [Fin (3 / 4), Fin (1 / 2), Fin (7 / 8)] [4, 4, 0] 3 = Some (Fin (11184811 / 33554432))"
    by (simp add: evaluate_def count_correct.simps evaluate_eval) (simp add: round_eval)
  from a b show ?thesis by simp
qed

text \<open>
  C10. The predicted label is always 0 or 4. A sample whose label is neither 0 nor 4 is
  never counted as correct, for any output value: the count that \<open>evaluate\<close> divides by the
  number of samples only counts samples labelled 0 or 4.
\<close>

theorem evaluate_credits_only_labels_0_4:
  assumes "n \<le> length outputs" and "n \<le> length labels"
  shows "(\<forall>x. predicted_label x = 0 \<or> predicted_label x = 4) \<and>
         (\<forall>i < n. labels ! i \<noteq> 0 \<and> labels ! i \<noteq> 4 \<longrightarrow> predicted_label (outputs ! i) \<noteq> labels ! i) \<and>
         evaluate outputs labels n =
           Some (float_div
                   (length [i \<leftarrow> [0..<n]. (labels ! i = 0 \<or> labels ! i = 4) \<and>
                                          predicted_label (outputs ! i) = labels ! i]) n)"
proof -
  have two: "\<forall>x. predicted_label x = 0 \<or> predicted_label x = 4"
    by (simp add: predicted_label_def)
  then have never: "\<forall>i < n. labels ! i \<noteq> 0 \<and> labels ! i \<noteq> 4 \<longrightarrow>
                      predicted_label (outputs ! i) \<noteq> labels ! i"
    by metis
  have same: "[i \<leftarrow> [0..<n]. predicted_label (outputs ! i) = labels ! i] =
              [i \<leftarrow> [0..<n]. (labels ! i = 0 \<or> labels ! i = 4) \<and>
                             predicted_label (outputs ! i) = labels ! i]"
  proof (rule filter_cong)
    fix i
    from two have "predicted_label (outputs ! i) = 0 \<or> predicted_label (outputs ! i) = 4"
      by blast
    then show "(predicted_label (outputs ! i) = labels ! i) =
               ((labels ! i = 0 \<or> labels ! i = 4) \<and> predicted_label (outputs ! i) = labels ! i)"
      by auto
  qed simp
  from assms have "count_correct outputs labels 0 n 0 =
      Some (length [i \<leftarrow> [0..<n]. predicted_label (outputs ! i) = labels ! i])"
    by (simp add: count_correct_spec)
  with same have "evaluate outputs labels n =
           Some (float_div
                   (length [i \<leftarrow> [0..<n]. (labels ! i = 0 \<or> labels ! i = 4) \<and>
                                          predicted_label (outputs ! i) = labels ! i]) n)"
    by (simp add: evaluate_def)
  with two never show ?thesis by blast
qed

theorem evaluate_credits_only_labels_0_4_witness:
  "evaluate [Fin (3 / 4), Fin (1 / 2), Fin (7 / 8)] [4, 2, 1] 3 = Some (Fin (11184811 / 33554432))"
proof -
  have upt: "[0..<3] = [0, 1, 2::nat]" by (simp add: upt_rec)
  have r: "float_div (Suc 0) 3 = Fin (11184811 / 33554432)"
    by (simp add: evaluate_eval) (simp add: round_eval)
  from evaluate_credits_only_labels_0_4 [of 3 "[Fin (3 / 4), Fin (1 / 2), Fin (7 / 8)]" "[4, 2, 1]"]
  show ?thesis
    by (simp add: upt predicted_label_def float_0_6_def r)
qed

section \<open>Properties of denseLayer\<close>

lemma dense_dot_spec:
  assumes "i * E + E \<le> length inputs" and "E \<le> length weights" and "k \<le> E"
    and "i * E + E \<le> INT_MAX"
  shows "dense_dot inputs weights i E k acc =
           Some (foldl (\<lambda>acc k. fadd acc (fmul (inputs ! (i * E + k)) (weights ! k)))
                   acc [k..<E])"
  using assms
proof (induction inputs weights i E k acc rule: dense_dot.induct)
  case (1 inputs weights i E k acc)
  note unfold = dense_dot.simps [of inputs weights i E k acc]
  show ?case
  proof (cases "k < E")
    case True
    with "1.prems" have inr: "i * E + k \<le> INT_MAX \<and> i * E + k < length inputs
        \<and> k < length weights" by simp
    from True have k1: "k + 1 \<le> E" by simp
    from True have upt: "[k..<E] = k # [k + 1..<E]" by (simp add: upt_conv_Cons)
    from "1.IH" [OF True inr "1.prems"(1,2) k1 "1.prems"(4)] unfold True inr show ?thesis
      by (simp add: upt)
  next
    case False
    with unfold show ?thesis by simp
  qed
qed

lemma dense_rows_spec:
  assumes "n * E \<le> length inputs" and "E \<le> length weights" and "0 < length biases"
    and "n \<le> length outputs" and "n * E \<le> INT_MAX"
  shows "\<exists>out. dense_rows inputs weights biases i n E outputs = Some out \<and>
           length out = length outputs \<and>
           (\<forall>r < length outputs. out ! r =
              (if i \<le> r \<and> r < n then float_dot inputs weights r E (biases ! 0)
               else outputs ! r))"
  using assms
proof (induction inputs weights biases i n E outputs rule: dense_rows.induct)
  case (1 inputs weights biases i n E outputs)
  note unfold = dense_rows.simps [of inputs weights biases i n E outputs]
  let ?v = "float_dot inputs weights i E (biases ! 0)"
  show ?case
  proof (cases "i < n")
    case False
    with unfold show ?thesis by auto
  next
    case True
    with "1.prems" have inr: "i < length outputs \<and> 0 < length biases" by simp
    from True have "(i + 1) * E \<le> n * E" by (intro mult_le_mono1) simp
    with "1.prems" have fits: "i * E + E \<le> length inputs" "i * E + E \<le> INT_MAX"
      by (simp_all add: algebra_simps)
    from dense_dot_spec [OF fits(1) "1.prems"(2) _ fits(2), of 0 "biases ! 0"]
    have dot: "dense_dot inputs weights i E 0 (biases ! 0) = Some ?v"
      by (simp add: float_dot_def)
    from "1.prems" have len': "n \<le> length (outputs[i := ?v])" by simp
    from "1.IH" [OF True inr dot "1.prems"(1,2,3) len' "1.prems"(5)]
    obtain out where out:
      "dense_rows inputs weights biases (i + 1) n E (outputs[i := ?v]) = Some out"
      "length out = length (outputs[i := ?v])"
      "\<forall>r < length (outputs[i := ?v]). out ! r =
          (if i + 1 \<le> r \<and> r < n then float_dot inputs weights r E (biases ! 0)
           else (outputs[i := ?v]) ! r)"
      by blast
    from unfold True inr dot out(1)
    have res: "dense_rows inputs weights biases i n E outputs = Some out" by simp
    have "out ! r =
            (if i \<le> r \<and> r < n then float_dot inputs weights r E (biases ! 0)
             else outputs ! r)" if r: "r < length outputs" for r
    proof (cases "r = i")
      case True
      with out(3) r \<open>i < n\<close> show ?thesis by simp
    next
      case False
      with out(3) r show ?thesis by auto
    qed
    with res out(2) show ?thesis by simp
  qed
qed

text \<open>
  C5, as amended. For a matrix of \<open>n\<close> rows of width \<open>D\<close> (with \<open>n * D\<close> in the range of
  \<^verbatim>\<open>int\<close>), \<open>D\<close> weights and the bias \<open>biases[0]\<close>, the linear scorer returns, for every row
  \<open>i\<close>, the single-precision sum \<open>float_dot\<close>: starting from the bias, the products
  \<open>matrix[i][k] * weights[k]\<close> for \<open>k\<close> from 0 to \<open>D - 1\<close> are added one after the other,
  each product and each sum rounded to single precision.
\<close>

theorem denseLayer_outputs:
  assumes "n * D \<le> length matrix" and "D \<le> length weights" and "0 < length biases"
    and "n \<le> length outputs" and "n * D \<le> INT_MAX"
  shows "\<exists>out. denseLayer matrix weights biases outputs n D = Some out \<and>
           length out = length outputs \<and>
           (\<forall>i < n. out ! i =
              foldl (\<lambda>acc k. fadd acc (fmul (matrix ! (i * D + k)) (weights ! k)))
                (biases ! 0) [0..<D])"
proof -
  from dense_rows_spec [OF assms, of 0]
  obtain out where out: "dense_rows matrix weights biases 0 n D outputs = Some out"
    "length out = length outputs"
    "\<forall>r < length outputs. out ! r =
        (if 0 \<le> r \<and> r < n then float_dot matrix weights r D (biases ! 0)
         else outputs ! r)"
    by blast
  from out(3) assms(4)
  have "\<forall>i < n. out ! i =
          foldl (\<lambda>acc k. fadd acc (fmul (matrix ! (i * D + k)) (weights ! k)))
            (biases ! 0) [0..<D]"
    by (simp add: float_dot_def)
  with out(1,2) show ?thesis by (simp add: denseLayer_def)
qed

lemmas float_eval = fadd_def fmul_def fdiv_def int_to_float_def

theorem denseLayer_outputs_witness:
  "denseLayer [Fin 1, Fin 2, Fin 3, Fin 4] [Fin 10, Fin 100] [Fin 5] [Fin 0, Fin 0] 2 2
     = Some [Fin 215, Fin 435]"
proof -
  have upt: "[0..<2] = [0, 1::nat]" by (simp add: upt_rec)
  from denseLayer_outputs [of 2 2 "[Fin 1, Fin 2, Fin 3, Fin 4]" "[Fin 10, Fin 100]" "[Fin 5]"
      "[Fin 0, Fin 0]"]
  obtain out where out:
    "denseLayer [Fin 1, Fin 2, Fin 3, Fin 4] [Fin 10, Fin 100] [Fin 5] [Fin 0, Fin 0] 2 2
       = Some out"
    "length out = 2"
    "out ! 0 = fadd (fadd (Fin 5) (fmul (Fin 1) (Fin 10))) (fmul (Fin 2) (Fin 100))"
    "out ! 1 = fadd (fadd (Fin 5) (fmul (Fin 3) (Fin 10))) (fmul (Fin 4) (Fin 100))"
    by (auto simp: upt INT_MAX_def)
  have "out ! 0 = Fin 215" unfolding out(3) by (simp add: float_eval) (simp add: round_eval)
  moreover have "out ! 1 = Fin 435" unfolding out(4) by (simp add: float_eval) (simp add: round_eval)
  ultimately have "out = [Fin 215, Fin 435]"
    using out(2) by (cases out; cases "tl out") (auto simp: nth_Cons')
  with out(1) show ?thesis by simp
qed

text \<open>
  C5 as stated claims the exact sum. For the row \<open>[1, 1]\<close>, the weights \<open>[16777216, 1]\<close>
  and the bias 0 the exact sum is 16777217, which single precision does not hold: the
  scorer returns 16777216.
\<close>

theorem denseLayer_sum_is_rounded:
  "denseLayer [Fin 1, Fin 1] [Fin 16777216, Fin 1] [Fin 0] [Fin 0] 1 2 = Some [Fin 16777216]
   \<and> (0 + 1 * 16777216 + 1 * 1 :: real) = 16777217"
  by (simp add: denseLayer_def dense_rows.simps dense_dot.simps INT_MAX_def float_eval)
     (simp add: round_eval)

section \<open>Properties of shuffleDataset\<close>

lemma shuffle_loop_permutes:
  assumes "n \<le> length dataset"
  shows "mset (shuffle_loop rnd i n dataset) = mset dataset \<and>
         length (shuffle_loop rnd i n dataset) = length dataset"
  using assms
proof (induction rnd i n dataset rule: shuffle_loop.induct)
  case (1 rnd i n dataset)
  note unfold = shuffle_loop.simps [of rnd i n dataset]
  show ?case
  proof (cases "i < n")
    case False
    with unfold show ?thesis by simp
  next
    case True
    define j where "j = rnd i mod n"
    define swapped where "swapped = dataset[i := dataset ! j, j := dataset ! i]"
    from True have "j < n" by (simp add: j_def)
    with True "1.prems" have ij: "i < length dataset" "j < length dataset" by simp_all
    then have sw: "mset swapped = mset dataset" "length swapped = length dataset"
      by (simp_all add: swapped_def mset_swap)
    from unfold True have step: "shuffle_loop rnd i n dataset = shuffle_loop rnd (i + 1) n swapped"
      by (simp add: Let_def j_def swapped_def)
    from "1.prems" sw have "n \<le> length swapped" by simp
    from "1.IH" [OF True j_def refl refl swapped_def [unfolded j_def, folded j_def] this]
    show ?thesis using step sw by simp
  qed
qed

text \<open>
  C8, as amended. For every dataset and every sequence of values of \<^verbatim>\<open>rand()\<close>, the
  shuffle leaves a permutation of the records: the multiset of records and their number
  are unchanged.
\<close>

theorem shuffleDataset_permutation:
  assumes "num_samples \<le> length dataset"
  shows "mset (shuffleDataset rnd dataset num_samples) = mset dataset \<and>
         length (shuffleDataset rnd dataset num_samples) = length dataset"
  using shuffle_loop_permutes [OF assms] by (simp add: shuffleDataset_def)

lemmas shuffle_eval = shuffleDataset_def shuffle_loop.simps Let_def

theorem shuffleDataset_permutation_witness:
  "shuffleDataset (\<lambda>k. k + 1)
     [\<lparr>text_buf = ''a'', label = 0\<rparr>, \<lparr>text_buf = ''b'', label = 4\<rparr>, \<lparr>text_buf = ''c'', label = 0\<rparr>] 3
   = [\<lparr>text_buf = ''a'', label = 0\<rparr>, \<lparr>text_buf = ''c'', label = 0\<rparr>, \<lparr>text_buf = ''b'', label = 4\<rparr>]
   \<and> mset (shuffleDataset (\<lambda>k. k + 1)
     [\<lparr>text_buf = ''a'', label = 0\<rparr>, \<lparr>text_buf = ''b'', label = 4\<rparr>, \<lparr>text_buf = ''c'', label = 0\<rparr>] 3)
   = mset [\<lparr>text_buf = ''a'', label = 0\<rparr>, \<lparr>text_buf = ''b'', label = 4\<rparr>, \<lparr>text_buf = ''c'', label = 0\<rparr>]"
  using shuffleDataset_permutation [of 3
     "[\<lparr>text_buf = ''a'', label = 0\<rparr>, \<lparr>text_buf = ''b'', label = 4\<rparr>, \<lparr>text_buf = ''c'', label = 0\<rparr>]"
     "\<lambda>k. k + 1"]
  by (simp add: shuffle_eval)

text \<open>
  C8 as stated claims that the permutation is drawn uniformly. The loop swaps position \<open>i\<close>
  with a position drawn from the whole array, so three records have \<open>27\<close> equally likely
  sequences of draws for \<open>6\<close> permutations: \<open>4\<close> of them leave the records in their order,
  \<open>5\<close> of them exchange the first two. For these three records the permutation is not
  uniformly distributed.
\<close>

theorem shuffleDataset_not_uniform:
  "count_list (shuffle_outcomes
      [\<lparr>text_buf = ''a'', label = 0\<rparr>, \<lparr>text_buf = ''b'', label = 4\<rparr>, \<lparr>text_buf = ''c'', label = 0\<rparr>])
      [\<lparr>text_buf = ''a'', label = 0\<rparr>, \<lparr>text_buf = ''b'', label = 4\<rparr>, \<lparr>text_buf = ''c'', label = 0\<rparr>] = 4
   \<and> count_list (shuffle_outcomes
      [\<lparr>text_buf = ''a'', label = 0\<rparr>, \<lparr>text_buf = ''b'', label = 4\<rparr>, \<lparr>text_buf = ''c'', label = 0\<rparr>])
      [\<lparr>text_buf = ''b'', label = 4\<rparr>, \<lparr>text_buf = ''a'', label = 0\<rparr>, \<lparr>text_buf = ''c'', label = 0\<rparr>] = 5
   \<and> length (shuffle_outcomes
      [\<lparr>text_buf = ''a'', label = 0\<rparr>, \<lparr>text_buf = ''b'', label = 4\<rparr>, \<lparr>text_buf = ''c'', label = 0\<rparr>]) = 27"
  by code_simp

section \<open>The size of the training split\<close>

lemma bit_length_bounds:
  "0 < m \<Longrightarrow> 2 ^ (bit_length m - 1) \<le> m \<and> m < 2 ^ bit_length m"
proof (induction m rule: bit_length.induct)
  case (1 n)
  note unfold = bit_length.simps [of n]
  show ?case
  proof (cases "n div 2 = 0")
    case True
    with "1.prems" have "n = 1" by (simp add: div_eq_0_iff) 
    then show ?thesis by (simp add: bit_length.simps)
  next
    case False
    with "1.IH" "1.prems" have ih: "2 ^ (bit_length (n div 2) - 1) \<le> n div 2"
      "n div 2 < 2 ^ bit_length (n div 2)" by simp_all
    from False have pos: "0 < bit_length (n div 2)"
      by (simp add: bit_length.simps [of "n div 2"])
    from "1.prems" unfold have bl: "bit_length n = bit_length (n div 2) + 1" by simp
    from pos have "(2::nat) ^ (bit_length n - 1) = 2 * 2 ^ (bit_length (n div 2) - 1)"
      by (cases "bit_length (n div 2)") (simp_all add: bl)
    with ih(1) have lo: "2 ^ (bit_length n - 1) \<le> n" by simp
    from ih(2) have "n < 2 * 2 ^ bit_length (n div 2)" by simp
    with lo bl show ?thesis by simp
  qed
qed

lemma round_ties_even_error:
  "2 * round_ties_even s m \<le> 2 * m + 2 ^ s \<and> 2 * m \<le> 2 * round_ties_even s m + 2 ^ s"
proof -
  define q where "q = m div 2 ^ s"
  define r where "r = m mod 2 ^ s"
  have m: "m = q * 2 ^ s + r" unfolding q_def r_def by (rule div_mult_mod_eq [symmetric])
  have r: "r < 2 ^ s" by (simp add: r_def)
  show ?thesis
  proof (cases "2 ^ s < 2 * r \<or> (2 * r = 2 ^ s \<and> odd q)")
    case True
    then have "round_ties_even s m = (q + 1) * 2 ^ s"
      by (simp add: round_ties_even_def q_def r_def Let_def)
    moreover from True have "2 ^ s \<le> 2 * r" by auto
    ultimately show ?thesis using m r by (simp add: algebra_simps)
  next
    case False
    then have "round_ties_even s m = q * 2 ^ s"
      by (simp add: round_ties_even_def q_def r_def Let_def)
    moreover from False have "2 * r \<le> 2 ^ s" by auto
    ultimately show ?thesis using m by (simp add: algebra_simps)
  qed
qed

lemma double_round_error:
  "2 ^ 53 * double_round m \<le> 2 ^ 53 * m + m \<and> 2 ^ 53 * m \<le> 2 ^ 53 * double_round m + m"
proof (cases "bit_length m \<le> 53")
  case True
  then show ?thesis by (simp add: double_round_def)
next
  case False
  define s where "s = bit_length m - 53"
  from False have bl: "bit_length m = s + 53" by (simp add: s_def)
  then have "0 < m" by (cases "m = 0") (simp_all add: bit_length.simps)
  from bit_length_bounds [OF this] bl have "2 ^ (s + 52) \<le> m" by (simp add: add.commute)
  then have big: "2 ^ s * 2 ^ 52 \<le> m" by (simp add: power_add)
  from False have R: "double_round m = round_ties_even s m"
    by (simp add: double_round_def s_def)
  from round_ties_even_error [of s m]
  have e: "2 * round_ties_even s m \<le> 2 * m + 2 ^ s" "2 * m \<le> 2 * round_ties_even s m + 2 ^ s"
    by simp_all
  from e(1) have "2 ^ 52 * (2 * round_ties_even s m) \<le> 2 ^ 52 * (2 * m + 2 ^ s)"
    by (rule mult_le_mono2)
  then have a: "2 ^ 53 * round_ties_even s m \<le> 2 ^ 53 * m + 2 ^ s * 2 ^ 52"
    by (simp add: algebra_simps)
  from e(2) have "2 ^ 52 * (2 * m) \<le> 2 ^ 52 * (2 * round_ties_even s m + 2 ^ s)"
    by (rule mult_le_mono2)
  then have b: "2 ^ 53 * m \<le> 2 ^ 53 * round_ties_even s m + 2 ^ s * 2 ^ 52"
    by (simp add: algebra_simps)
  from a b big R show ?thesis by simp
qed

lemma train_size_bounds:
  assumes "N < 2 ^ 31"
  shows "train_size N \<le> 7 * N div 10 \<and> 7 * N div 10 \<le> train_size N + 1 \<and>
         (\<not> 10 dvd N \<longrightarrow> train_size N = 7 * N div 10)"
proof -
  define m where "m = N * double_0_7"
  define R where "R = double_round m"
  define T where "T = train_size N"
  define F where "F = 7 * N div 10"
  have c: "m = N * 6305039478318694" by (simp add: m_def double_0_7_def)
  from double_round_error [of m]
  have a: "9007199254740992 * R \<le> 9007199254740992 * m + m"
    and b: "9007199254740992 * m \<le> 9007199254740992 * R + m"
    by (simp_all add: R_def)
  have T: "T = R div 9007199254740992" by (simp add: T_def train_size_def R_def m_def)
  have t1: "9007199254740992 * T \<le> R" unfolding T by simp
  have t2: "R < 9007199254740992 * T + 9007199254740992"
    unfolding T using div_mult_mod_eq [of R 9007199254740992]
      mod_less_divisor [of 9007199254740992 R] by linarith
  have f1: "10 * F \<le> 7 * N" and f2: "7 * N \<le> 10 * F + 9"
    unfolding F_def by presburger+
  from assms have n: "N < 2147483648" by simp
  have up: "T \<le> F" using a c t1 f2 n by linarith
  have lo: "F \<le> T + 1" using b c t2 f1 n by linarith
  have ex: "T = F" if "\<not> 10 dvd N"
  proof -
    from that have "\<not> 10 dvd 7 * N"
      by presburger
    then have "10 * F + 1 \<le> 7 * N" unfolding F_def by presburger
    with b c t2 n have "F \<le> T" by linarith
    with up show ?thesis by simp
  qed
  from up lo ex show ?thesis by (simp add: T_def F_def)
qed

lemmas train_size_eval = train_size_def double_round_def bit_length.simps double_0_7_def
  round_ties_even_def

lemma train_size_3: "train_size 3 = 2"
  by (simp add: train_size_eval)

lemma train_size_small: "N \<le> 1 \<Longrightarrow> train_size N = 0"
proof -
  assume "N \<le> 1"
  then have "N = 0 \<or> N = 1" by auto
  moreover have "train_size 0 = 0" by (simp add: train_size_eval)
  moreover have "train_size 1 = 0" by (simp add: train_size_eval)
  ultimately show ?thesis by blast
qed

lemma train_size_pos:
  assumes "2 \<le> N" and "N < 2 ^ 31"
  shows "0 < train_size N \<and> train_size N < N"
proof -
  from train_size_bounds [OF assms(2)]
  have b: "train_size N \<le> 7 * N div 10" "7 * N div 10 \<le> train_size N + 1" by blast+
  from assms(1) have "7 * N div 10 < N" by (simp add: div_less_iff_less_mult)
  with b(1) have lt: "train_size N < N" by simp
  have "0 < train_size N"
  proof (cases "N = 2")
    case True
    then show ?thesis by (simp add: train_size_eval)
  next
    case False
    with assms(1) have "2 * 10 \<le> 7 * N" by simp
    then have "2 \<le> 7 * N div 10" by (simp only: less_eq_div_iff_mult_less_eq [symmetric] zero_less_numeral)
    with b(2) show ?thesis by simp
  qed
  with lt show ?thesis by simp
qed

lemma train_size_le:
  assumes "N < 2 ^ 31"
  shows "train_size N \<le> N"
proof -
  from train_size_bounds [OF assms] have "train_size N \<le> 7 * N div 10" by blast
  also have "\<dots> \<le> N" by simp
  finally show ?thesis .
qed

lemma floor_seven_tenths: "\<lfloor>0.7 * real N\<rfloor> = int (7 * N div 10)"
proof -
  have "0.7 * real N = real (7 * N) / real 10" by simp
  then show ?thesis by (simp only: floor_divide_of_nat_eq)
qed

section \<open>Properties of loadDataset\<close>

lemma same_records_refl: "same_records st st"
  by (simp add: same_records_def)

lemma same_records_trans:
  "same_records a b \<Longrightarrow> same_records b c \<Longrightarrow> same_records a c"
  by (simp add: same_records_def)

lemma load_line_malformed:
  assumes "malformed line"
  shows "same_records (load_line W st line) st"
proof (cases "strtok '','' line")
  case (Pair token rest1)
  show ?thesis
  proof (cases token)
    case None
    with Pair show ?thesis
      by (simp add: load_line_def same_records_def Let_def)
  next
    case (Some tok)
    with Pair assms have "text_token rest1 = None" by (simp add: malformed_def)
    with Pair Some show ?thesis
      by (simp add: load_line_def same_records_def Let_def)
  qed
qed

lemma load_line_wellformed:
  assumes "\<not> malformed line"
  shows "\<exists>tok rest1 txt. strtok '','' line = (Some tok, rest1) \<and> text_token rest1 = Some txt \<and>
           ls_count (load_line W st line) = ls_count st + 1 \<and>
           ls_dataset (load_line W st line) =
             (ls_dataset st)(ls_count st := \<lparr>text_buf = strncpy_text W txt, label = atoi tok\<rparr>)"
proof (cases "strtok '','' line")
  case (Pair token rest1)
  with assms obtain tok where tok: "token = Some tok"
    by (cases token) (simp_all add: malformed_def)
  with Pair assms obtain t where t: "text_token rest1 = Some t"
    by (cases "text_token rest1") (simp_all add: malformed_def)
  have upd: "((r::Post)\<lparr>label := a\<rparr>)\<lparr>text_buf := b\<rparr> = \<lparr>text_buf = b, label = a\<rparr>" for r a b
    by (cases r) simp
  from Pair tok t show ?thesis
    by (simp add: load_line_def Let_def upd fun_eq_iff)
qed





lemmas load_eval = malformed_def text_token_def strtok_def numeral_3_eq_3 Let_def


text \<open>
  The count is the number of lines that are not malformed, and every record is a
  buffer of the row width that holds a terminator.
\<close>

lemma load_lines_count:
  "ls_count (load_lines W lines st) = ls_count st + length [l \<leftarrow> lines. \<not> malformed l]"
proof (induction lines arbitrary: st)
  case Nil
  then show ?case by simp
next
  case (Cons line lines)
  show ?case
  proof (cases "malformed line")
    case True
    from load_line_malformed [OF True, of W st]
    have "ls_count (load_line W st line) = ls_count st" by (simp add: same_records_def)
    with True Cons.IH [of "load_line W st line"] show ?thesis by simp
  next
    case False
    from load_line_wellformed [OF False, of W st]
    have "ls_count (load_line W st line) = ls_count st + 1" by blast
    with False Cons.IH [of "load_line W st line"] show ?thesis by simp
  qed
qed

lemma strncpy_text_wf:
  assumes "0 < W"
  shows "wf_post W \<lparr>text_buf = strncpy_text W t, label = a\<rparr>"
  using assms by (simp add: wf_post_def strncpy_text_def)

lemma load_line_wf:
  assumes "0 < W" and "\<forall>k < ls_count st. wf_post W (ls_dataset st k)"
  shows "\<forall>k < ls_count (load_line W st line). wf_post W (ls_dataset (load_line W st line) k)"
proof (cases "malformed line")
  case True
  from load_line_malformed [OF True, of W st] assms(2) show ?thesis
    by (simp add: same_records_def)
next
  case False
  from load_line_wellformed [OF False, of W st]
  obtain tok t where
    c: "ls_count (load_line W st line) = ls_count st + 1" and
    d: "ls_dataset (load_line W st line) =
          (ls_dataset st)(ls_count st := \<lparr>text_buf = strncpy_text W t, label = atoi tok\<rparr>)"
    by blast
  from assms strncpy_text_wf [OF assms(1)] show ?thesis
    unfolding c d by (simp add: less_Suc_eq)
qed

lemma load_lines_wf:
  assumes "0 < W"
  shows "\<forall>k < ls_count st. wf_post W (ls_dataset st k) \<Longrightarrow>
         \<forall>k < ls_count (load_lines W lines st). wf_post W (ls_dataset (load_lines W lines st) k)"
proof (induction lines arbitrary: st)
  case Nil
  then show ?case by simp
next
  case (Cons line lines)
  from load_line_wf [OF assms Cons.prems]
  have "\<forall>k < ls_count (load_line W st line). wf_post W (ls_dataset (load_line W st line) k)" .
  from Cons.IH [OF this] show ?case by simp
qed

lemma loadDataset_returns:
  assumes "0 < W" and "granted ''dataset'' 1000"
  shows "\<exists>loaded. loadDataset W granted heap (Some lines) =
             Returns (length [l \<leftarrow> lines. \<not> malformed l], loaded) \<and>
           length loaded = length [l \<leftarrow> lines. \<not> malformed l] \<and>
           (\<forall>p \<in> set loaded. wf_post W p)"
proof -
  define st0 where "st0 = \<lparr>ls_dataset = heap, ls_count = 0, ls_capacity = 1000\<rparr>"
  define st where "st = load_lines W lines st0"
  have n: "ls_count st = length [l \<leftarrow> lines. \<not> malformed l]"
    unfolding st_def by (simp add: load_lines_count st0_def)
  have "\<forall>k < ls_count st0. wf_post W (ls_dataset st0 k)" by (simp add: st0_def)
  from load_lines_wf [OF assms(1) this, of lines]
  have wf: "\<forall>k < ls_count st. wf_post W (ls_dataset st k)" by (simp add: st_def)
  have "loadDataset W granted heap (Some lines) =
          Returns (ls_count st, map (ls_dataset st) [0..<ls_count st])"
    using assms(2) by (simp add: loadDataset_def Let_def st_def st0_def)
  with n wf show ?thesis by auto
qed

text \<open>A line with fewer than five commas has no text field.\<close>

lemma strtok_empty: "strtok delim [] = (None, [])"
  by (simp add: strtok_def)

lemma strtok_comma_rest:
  "snd (strtok '','' s) = [] \<or> count_list (snd (strtok '','' s)) CHR '','' < count_list s CHR '',''"
proof -
  define s1 where "s1 = dropWhile (\<lambda>c. c \<in> set '','') s"
  define s2 where "s2 = dropWhile (\<lambda>c. c \<notin> set '','') s1"
  have "s = takeWhile (\<lambda>c. c \<in> set '','') s @ s1" by (simp add: s1_def)
  then have "count_list s CHR '','' = count_list (takeWhile (\<lambda>c. c \<in> set '','') s) CHR '','' + count_list s1 CHR '',''"
    by (metis count_list_append)
  then have a: "count_list s1 CHR '','' \<le> count_list s CHR '',''" by simp
  have "s1 = takeWhile (\<lambda>c. c \<notin> set '','') s1 @ s2" by (simp add: s2_def)
  then have "count_list s1 CHR '','' = count_list (takeWhile (\<lambda>c. c \<notin> set '','') s1) CHR '','' + count_list s2 CHR '',''"
    by (metis count_list_append)
  then have b: "count_list s2 CHR '','' \<le> count_list s1 CHR '',''" by simp
  have snd: "snd (strtok '','' s) = (if s1 = [] then [] else drop 1 s2)"
    by (simp add: strtok_def Let_def s1_def s2_def)
  show ?thesis
  proof (cases s2)
    case Nil
    with snd show ?thesis by simp
  next
    case (Cons c rest)
    have "s2 \<noteq> [] \<longrightarrow> \<not> (hd s2 \<notin> set '','')"
      unfolding s2_def by (rule impI) (rule hd_dropWhile)
    with Cons have c: "c = CHR '',''" by simp
    from Cons c have "count_list s2 CHR '','' = count_list rest CHR '','' + 1" by simp
    moreover from snd Cons have "snd (strtok '','' s) = [] \<or> snd (strtok '','' s) = rest"
      by simp
    ultimately show ?thesis using a b by auto
  qed
qed

lemma few_commas_malformed:
  assumes "count_list line CHR '','' < 5"
  shows "malformed line"
proof -
  define r1 where "r1 = snd (strtok '','' line)"
  define r2 where "r2 = snd (strtok '','' r1)"
  define r3 where "r3 = snd (strtok '','' r2)"
  define r4 where "r4 = snd (strtok '','' r3)"
  define r5 where "r5 = snd (strtok '','' r4)"
  note rs = r1_def r2_def r3_def r4_def r5_def
  have e: "snd (strtok '','' []) = []" by (simp add: strtok_empty)
  from strtok_comma_rest [of line] strtok_comma_rest [of r1] strtok_comma_rest [of r2]
    strtok_comma_rest [of r3] strtok_comma_rest [of r4] assms
  have "r1 = [] \<or> r2 = [] \<or> r3 = [] \<or> r4 = [] \<or> r5 = []"
    unfolding rs [symmetric] by linarith
  then have "r5 = []"
    using e by (auto simp: rs)
  then have "text_token r1 = None"
    by (simp add: text_token_def numeral_3_eq_3 rs [symmetric] strtok_empty)
  then show ?thesis
    by (cases "strtok '','' line") (auto simp: malformed_def r1_def split: option.splits)
qed

section \<open>Properties of loadAndSplitDataset\<close>

lemma loadAndSplitDataset_returns:
  assumes "0 < W" and "N = length [l \<leftarrow> lines. \<not> malformed l]" and "N < 2 ^ 31"
    and "granted ''dataset'' 1000" and "granted ''trainSet'' (train_size N)"
    and "granted ''testSet'' (N - train_size N)"
  shows "\<exists>trainSet testSet.
           loadAndSplitDataset W granted heap rnd (Some lines) =
             Returns (N, trainSet, testSet, train_size N, N - train_size N) \<and>
           length trainSet = train_size N \<and> length testSet = N - train_size N \<and>
           (\<forall>p \<in> set trainSet. wf_post W p) \<and> (\<forall>p \<in> set testSet. wf_post W p)"
proof -
  from loadDataset_returns [where granted = granted and heap = heap and lines = lines,
      OF assms(1,4)] assms(2)
  obtain loaded where l: "loadDataset W granted heap (Some lines) = Returns (N, loaded)"
    "length loaded = N" "\<forall>p \<in> set loaded. wf_post W p"
    by auto
  define dataset where "dataset = shuffleDataset rnd loaded N"
  from l(2) have "N \<le> length loaded" by simp
  from shuffle_loop_permutes [OF this, of rnd 0]
  have sh: "mset dataset = mset loaded" "length dataset = N"
    by (simp_all add: dataset_def shuffleDataset_def l(2))
  from sh(1) have "set dataset = set loaded" by (rule mset_eq_setD)
  with l(3) have wf: "\<forall>p \<in> set dataset. wf_post W p" by simp
  define trainSet where "trainSet = map (\<lambda>i. dataset ! i) [0..<train_size N]"
  define testSet where "testSet = map (\<lambda>i. dataset ! (train_size N + i)) [0..<N - train_size N]"
  from train_size_le [OF assms(3)] have T: "train_size N \<le> N" .
  have w1: "\<forall>p \<in> set trainSet. wf_post W p"
    using wf sh(2) T by (auto simp: trainSet_def)
  have w2: "\<forall>p \<in> set testSet. wf_post W p"
    using wf sh(2) T by (auto simp: testSet_def)
  have "loadAndSplitDataset W granted heap rnd (Some lines) =
          Returns (N, trainSet, testSet, train_size N, N - train_size N)"
    using assms(5,6)
    by (simp add: loadAndSplitDataset_def l(1) Let_def dataset_def trainSet_def testSet_def)
  with w1 w2 show ?thesis by (auto simp: trainSet_def testSet_def)
qed

text \<open>
  C7, as amended. For every dataset of \<open>N\<close> records (\<open>N\<close> in the range of \<^verbatim>\<open>int\<close>), the
  two parts have \<open>trainSize\<close> and \<open>testSize\<close> records, \<open>trainSize + testSize = N\<close> and
  \<open>testSize = N - trainSize\<close>. \<open>trainSize\<close> is the double-precision product \<open>N * 0.7\<close> cut
  to an integer: it is \<open>floor(0.7 * N)\<close> or one less, and it is \<open>floor(0.7 * N)\<close> whenever
  \<open>N\<close> is not a multiple of 10.
\<close>

theorem loadAndSplitDataset_sizes:
  assumes "loadAndSplitDataset W granted heap rnd file =
             Returns (N, trainSet, testSet, trainSize, testSize)"
    and "N < 2 ^ 31"
  shows "length trainSet = trainSize \<and> length testSet = testSize \<and>
         trainSize + testSize = N \<and> testSize = N - trainSize \<and>
         trainSize = train_size N \<and>
         int trainSize \<le> \<lfloor>0.7 * real N\<rfloor> \<and> \<lfloor>0.7 * real N\<rfloor> \<le> int trainSize + 1 \<and>
         (\<not> 10 dvd N \<longrightarrow> int trainSize = \<lfloor>0.7 * real N\<rfloor>)"
proof -
  from assms(1) obtain loaded where "loadDataset W granted heap file = Returns (N, loaded)"
    by (auto simp: loadAndSplitDataset_def Let_def split: outcome.splits if_splits)
  with assms(1) have eqs: "trainSize = train_size N" "testSize = N - train_size N"
    "length trainSet = trainSize" "length testSet = testSize"
    by (auto simp: loadAndSplitDataset_def Let_def split: if_splits)
  from train_size_bounds [OF assms(2)] eqs
  show ?thesis unfolding floor_seven_tenths by auto
qed

theorem loadAndSplitDataset_sizes_witness:
  "\<exists>trainSet testSet.
     loadAndSplitDataset 8 (\<lambda>name sz. True) (\<lambda>k. \<lparr>text_buf = [], label = 7\<rparr>) (\<lambda>k. k)
       (Some [''0,1,2,3,4,bad'', ''4,1,2,3,4,good'', ''4,1,2'', ''0,1,2,3,4,so so''])
       = Returns (3, trainSet, testSet, 2, 1) \<and>
     length trainSet = 2 \<and> length testSet = 1 \<and> \<lfloor>0.7 * real (3::nat)\<rfloor> = 2"
proof -
  have n: "3 = length [l \<leftarrow> [''0,1,2,3,4,bad'', ''4,1,2,3,4,good'', ''4,1,2'', ''0,1,2,3,4,so so''].
                       \<not> malformed l]"
    by (simp add: load_eval)
  from loadAndSplitDataset_returns [OF _ n, of 8 "\<lambda>name sz. True"
      "\<lambda>k. \<lparr>text_buf = [], label = 7\<rparr>" "\<lambda>k. k"]
  obtain trainSet testSet where r:
    "loadAndSplitDataset 8 (\<lambda>name sz. True) (\<lambda>k. \<lparr>text_buf = [], label = 7\<rparr>) (\<lambda>k. k)
       (Some [''0,1,2,3,4,bad'', ''4,1,2,3,4,good'', ''4,1,2'', ''0,1,2,3,4,so so''])
       = Returns (3, trainSet, testSet, 2, 1)"
    by (auto simp: train_size_3)
  have f: "\<lfloor>0.7 * real (3::nat)\<rfloor> = 2" unfolding floor_seven_tenths by simp
  from loadAndSplitDataset_sizes [OF r] r f show ?thesis by auto
qed

text \<open>
  C7 as stated claims \<open>trainSize = floor(0.7 * N)\<close> for every \<open>N\<close>. For \<open>N = 90\<close> the
  double-precision product \<open>90 * 0.7\<close> is \<open>62.99999999999999\<close>, and the conversion to
  \<^verbatim>\<open>int\<close> gives 62, while \<open>floor(0.7 * 90) = 63\<close>.
\<close>

theorem train_size_90_below_floor:
  "train_size 90 = 62 \<and> \<lfloor>0.7 * real (90::nat)\<rfloor> = 63"
proof -
  have "train_size 90 = 62" by (simp add: train_size_eval)
  moreover have "\<lfloor>0.7 * real (90::nat)\<rfloor> = 63" unfolding floor_seven_tenths by simp
  ultimately show ?thesis by simp
qed


text \<open>Without the blocks it asks for, the loader ends the program with the status 1.\<close>

lemma loadAndSplitDataset_not_granted:
  assumes "\<not> (granted ''dataset'' 1000 \<and> granted ''trainSet'' (train_size N)
             \<and> granted ''testSet'' (N - train_size N))"
    and "0 < W" and "N = length [l \<leftarrow> lines. \<not> malformed l]"
  shows "loadAndSplitDataset W granted heap rnd (Some lines) = Exit 1"
proof (cases "granted ''dataset'' 1000")
  case False
  then show ?thesis by (simp add: loadAndSplitDataset_def loadDataset_def)
next
  case True
  from loadDataset_returns [where granted = granted and heap = heap and lines = lines,
      OF assms(2) True] assms(3)
  obtain loaded where l: "loadDataset W granted heap (Some lines) = Returns (N, loaded)"
    by auto
  from True assms(1) show ?thesis
    by (auto simp: loadAndSplitDataset_def l Let_def)
qed

section \<open>Properties of init_weights and sigmoidActivation\<close>

lemma init_weights_loop_total:
  assumes "nf * nf \<le> length weights" and "nf * nf \<le> INT_MAX"
  shows "\<exists>w. init_weights_loop rnd i nf weights = Some w \<and> length w = length weights"
  using assms
proof (induction rnd i nf weights rule: init_weights_loop.induct)
  case (1 rnd i nf weights)
  note unfold = init_weights_loop.simps [of rnd i nf weights]
  show ?case
  proof (cases "i < nf * nf")
    case True
    with "1.prems" have inr: "nf * nf \<le> INT_MAX \<and> i < length weights" by simp
    from "1.IH" [OF True inr] "1.prems" unfold True inr show ?thesis by simp
  next
    case False
    with unfold show ?thesis by simp
  qed
qed

text \<open>
  The activation stage replaces each of the first \<open>n\<close> outputs \<open>x\<close> by the
  single-precision value of \<^verbatim>\<open>1.0f / (1.0f + expf(-x))\<close> and leaves the others.
\<close>

lemma sigmoid_loop_spec:
  assumes "n \<le> length outputs"
  shows "\<exists>out. sigmoid_loop i n outputs = Some out \<and> length out = length outputs \<and>
           (\<forall>k < length outputs. out ! k =
              (if i \<le> k \<and> k < n then sigmoid32 (outputs ! k) else outputs ! k))"
  using assms
proof (induction i n outputs rule: sigmoid_loop.induct)
  case (1 i n outputs)
  note unfold = sigmoid_loop.simps [of i n outputs]
  let ?u = "outputs[i := sigmoid32 (outputs ! i)]"
  show ?case
  proof (cases "i < n")
    case False
    with unfold show ?thesis by auto
  next
    case True
    with "1.prems" have inr: "i < length outputs" by simp
    from "1.prems" have "n \<le> length ?u" by simp
    from "1.IH" [OF True inr this]
    obtain out where out: "sigmoid_loop (i + 1) n ?u = Some out" "length out = length ?u"
      "\<forall>k < length ?u. out ! k =
         (if i + 1 \<le> k \<and> k < n then sigmoid32 (?u ! k) else ?u ! k)"
      by blast
    from unfold True inr out(1) have res: "sigmoid_loop i n outputs = Some out" by simp
    have "out ! k = (if i \<le> k \<and> k < n then sigmoid32 (outputs ! k) else outputs ! k)"
      if k: "k < length outputs" for k
    proof (cases "k = i")
      case True
      with out(3) k \<open>i < n\<close> show ?thesis by simp
    next
      case False
      with out(3) k show ?thesis by auto
    qed
    with res out(2) show ?thesis by simp
  qed
qed

text \<open>
  The value at 0, and the values at the infinities: the activation of an infinite
  output is 0 or 1, and that of a NaN is a NaN.
\<close>

lemma sigmoid32_0: "sigmoid32 (Fin 0) = Fin (1 / 2)"
  by (simp add: sigmoid32_def fadd_def fdiv_def round32_1) (simp add: round_eval)

lemma sigmoid32_infinite:
  "sigmoid32 PosInf = Fin 1 \<and> sigmoid32 NegInf = Fin 0 \<and> sigmoid32 NaN = NaN"
  by (simp add: sigmoid32_def fadd_def fdiv_def round32_1)

text \<open>
  C6, as amended. The activation stage maps each of the first \<open>n\<close> outputs \<open>x\<close> in place
  to the single-precision value of \<^verbatim>\<open>1.0f / (1.0f + expf(-x))\<close> and leaves the others.
  For a finite \<open>x\<close> the activated value is a number of the closed interval from 0 to 1,
  and the activation is monotonic: of two finite outputs, the greater one has the greater
  or the same activated value. (The bounds 0 and 1 are attained.)
\<close>

theorem sigmoidActivation_range:
  assumes "n \<le> length outputs"
  shows "\<exists>out. sigmoidActivation outputs n = Some out \<and> length out = length outputs \<and>
           (\<forall>i < n. out ! i = sigmoid32 (outputs ! i)) \<and>
           (\<forall>i. n \<le> i \<and> i < length outputs \<longrightarrow> out ! i = outputs ! i) \<and>
           (\<forall>i < n. \<forall>x. outputs ! i = Fin x \<longrightarrow> (\<exists>y. out ! i = Fin y \<and> 0 \<le> y \<and> y \<le> 1)) \<and>
           (\<forall>i < n. \<forall>j < n. \<forall>x x' y y'.
              outputs ! i = Fin x \<and> outputs ! j = Fin x' \<and> x \<le> x' \<and>
              out ! i = Fin y \<and> out ! j = Fin y' \<longrightarrow> y \<le> y')"
proof -
  from sigmoid_loop_spec [OF assms, of 0]
  obtain out where out: "sigmoid_loop 0 n outputs = Some out" "length out = length outputs"
    "\<forall>k < length outputs. out ! k =
       (if 0 \<le> k \<and> k < n then sigmoid32 (outputs ! k) else outputs ! k)"
    by blast
  from out(3) assms have a: "\<forall>i < n. out ! i = sigmoid32 (outputs ! i)" by simp
  from out(3) have b: "\<forall>i. n \<le> i \<and> i < length outputs \<longrightarrow> out ! i = outputs ! i" by simp
  have c: "\<exists>y. out ! i = Fin y \<and> 0 \<le> y \<and> y \<le> 1" if "i < n" "outputs ! i = Fin x" for i x
    using a that sigmoid32_range [of x] by simp
  have d: "y \<le> y'"
    if "i < n" "j < n" "outputs ! i = Fin x" "outputs ! j = Fin x'" "x \<le> x'"
      "out ! i = Fin y" "out ! j = Fin y'" for i j x x' y y'
  proof -
    from a that have "sigmoid32 (Fin x) = Fin y" "sigmoid32 (Fin x') = Fin y'" by simp_all
    from sigmoid32_mono [OF that(5) this] show ?thesis .
  qed
  from c have c': "\<forall>i < n. \<forall>x. outputs ! i = Fin x \<longrightarrow> (\<exists>y. out ! i = Fin y \<and> 0 \<le> y \<and> y \<le> 1)"
    by blast
  from d have d': "\<forall>i < n. \<forall>j < n. \<forall>x x' y y'.
              outputs ! i = Fin x \<and> outputs ! j = Fin x' \<and> x \<le> x' \<and>
              out ! i = Fin y \<and> out ! j = Fin y' \<longrightarrow> y \<le> y'"
    by blast
  from out(1,2) a b c' d' show ?thesis
    unfolding sigmoidActivation_def by blast
qed

theorem sigmoidActivation_range_witness:
  "sigmoidActivation [Fin 0, PosInf, Fin 7] 2 = Some [Fin (1 / 2), Fin 1, Fin 7]"
proof -
  from sigmoidActivation_range [of 2 "[Fin 0, PosInf, Fin 7]"]
  obtain out where out: "sigmoidActivation [Fin 0, PosInf, Fin 7] 2 = Some out"
    "length out = 3" "\<forall>i < 2. out ! i = sigmoid32 ([Fin 0, PosInf, Fin 7] ! i)"
    "\<forall>i. 2 \<le> i \<and> i < 3 \<longrightarrow> out ! i = [Fin 0, PosInf, Fin 7] ! i"
    by auto
  from out(3) have "out ! 0 = Fin (1 / 2)" "out ! 1 = Fin 1"
    using sigmoid32_0 sigmoid32_infinite by simp_all
  moreover from out(4) have "out ! 2 = Fin 7" by simp
  ultimately have "out = [Fin (1 / 2), Fin 1, Fin 7]"
    using out(2) by (simp add: list_eq_iff_nth_eq less_Suc_eq numeral_3_eq_3 numeral_2_eq_2)
  with out(1) show ?thesis by simp
qed

text \<open>
  C6 as stated claims that every activated value lies strictly between 0 and 1. The
  output 100 is mapped to 1 exactly, since \<open>1 + exp (- 100)\<close> rounds to 1, and the
  output \<open>- 200\<close> is mapped to 0 exactly, since \<open>exp 200\<close> is beyond the largest
  single-precision number.
\<close>

theorem sigmoidActivation_attains_bounds:
  "sigmoidActivation [Fin 100, Fin (- 200)] 2 = Some [Fin 1, Fin 0]"
  by (simp add: sigmoidActivation_def sigmoid_loop.simps sigmoid32_100 sigmoid32_minus_200)

section \<open>Properties of main\<close>

lemma or_exit_safe_malloc:
  "or_exit (safe_malloc granted heap sz name) k =
     (if granted name sz then k (map (heap name) [0..<sz]) else Failed 1)"
  by (simp add: or_exit_def safe_malloc_def)

lemma or_exit_Returns: "or_exit (Returns x) k = k x"
  by (simp add: or_exit_def)

lemma or_undefined_Some: "or_undefined (Some x) k = k x"
  by (simp add: or_undefined_def)

lemma int_mul_Some: "a * b \<le> INT_MAX \<Longrightarrow> int_mul a b = Some (a * b)"
  by (simp add: int_mul_def)

lemma forward_pass:
  assumes "0 < n" and "length records = n" and "\<forall>p \<in> set records. wf_post MAX_TOKENS p"
    and "length tokenIds = n * MAX_TOKENS" and "NUM_FEATURES \<le> length weights"
    and "0 < length biases" and "length outputs = n * NUM_FEATURES" and "length labels = n"
    and "n * MAX_TOKENS \<le> INT_MAX"
  shows "\<exists>tokens scores activated a.
           tokenizeAndEmbed sg MAX_TOKENS records tokenIds n = Some tokens \<and>
           denseLayer tokens weights biases outputs n NUM_FEATURES = Some scores \<and>
           sigmoidActivation scores n = Some activated \<and>
           evaluate activated labels n = Some (Fin a) \<and> 0 \<le> a \<and> a \<le> 1"
proof -
  from assms(2,3) have wf: "\<forall>r < n. wf_post MAX_TOKENS (records ! r)" by simp
  from assms(2) have "n \<le> length records" by simp
  from tokenizeAndEmbed_entries [OF wf this _ assms(9), of tokenIds sg] assms(4)
  obtain tokens where tokens: "tokenizeAndEmbed sg MAX_TOKENS records tokenIds n = Some tokens"
    "length tokens = n * MAX_TOKENS"
    by auto
  have d1: "n * NUM_FEATURES \<le> length tokens"
    by (simp add: tokens(2) NUM_FEATURES_def MAX_TOKENS_def)
  from assms(9) have d2: "n * NUM_FEATURES \<le> INT_MAX"
    by (simp add: NUM_FEATURES_def MAX_TOKENS_def)
  from assms(1,7) have d3: "n \<le> length outputs"
    by (simp add: NUM_FEATURES_def)
  from dense_rows_spec [OF d1 assms(5,6) d3 d2, of 0]
  obtain scores where
    scores: "denseLayer tokens weights biases outputs n NUM_FEATURES = Some scores"
    "length scores = length outputs"
    by (auto simp: denseLayer_def)
  from d3 scores(2) have ns: "n \<le> length scores" by simp
  from sigmoid_loop_spec [OF ns, of 0]
  obtain activated where act: "sigmoidActivation scores n = Some activated"
    "length activated = length scores"
    by (auto simp: sigmoidActivation_def)
  let ?c = "length [k \<leftarrow> [0..<n]. predicted_label (activated ! k) = labels ! k]"
  from ns act(2) assms(8) have "count_correct activated labels 0 n 0 = Some ?c"
    by (simp add: count_correct_spec)
  then have ev: "evaluate activated labels n = Some (float_div ?c n)"
    by (simp add: evaluate_def)
  have "?c \<le> length [0..<n]" by (rule length_filter_le)
  then have le: "?c \<le> n" by simp
  from assms(9) have "n < 2 ^ 31" by (simp add: MAX_TOKENS_def INT_MAX_def)
  from float_div_range [OF le assms(1) this]
  obtain a where "float_div ?c n = Fin a" "0 \<le> a" "a \<le> 1" by blast
  with ev tokens(1) scores(1) act(1) show ?thesis by auto
qed

text \<open>
  The sizes of the two parts of fewer than 2995932 records are below \<open>2 ^ 21\<close>; from
  2995932 records on there are \<open>2 ^ 21\<close> training records or more, and the product
  \<^verbatim>\<open>trainSize * MAX_TOKENS\<close> is not an \<^verbatim>\<open>int\<close>: no accuracy is reported.
\<close>

lemma split_sizes_small:
  assumes "N < 2995932"
  shows "train_size N < 2 ^ 21 \<and> N - train_size N < 2 ^ 21"
proof -
  define F where "F = 7 * N div 10"
  define T where "T = train_size N"
  from assms have "N < 2 ^ 31" by simp
  from train_size_bounds [OF this] have b: "T \<le> F" "F \<le> T + 1"
    by (simp_all add: F_def T_def)
  have "7 * N = 10 * F + 7 * N mod 10" by (simp add: F_def)
  moreover have "7 * N mod 10 < 10" by simp
  ultimately have f: "10 * F \<le> 7 * N" "7 * N < 10 * F + 10" by linarith+
  from assms f b have "T < 2097152 \<and> N - T < 2097152" by linarith
  then show ?thesis by (simp add: T_def)
qed

lemma train_size_large:
  assumes "2995932 \<le> N" and "N < 2 ^ 31"
  shows "INT_MAX < train_size N * MAX_TOKENS"
proof -
  define F where "F = 7 * N div 10"
  define T where "T = train_size N"
  from train_size_bounds [OF assms(2)]
  have b: "F \<le> T + 1" "\<not> 10 dvd N \<Longrightarrow> T = F"
    by (simp_all add: F_def T_def)
  have "7 * N = 10 * F + 7 * N mod 10" by (simp add: F_def)
  moreover have "7 * N mod 10 < 10" by simp
  ultimately have f: "7 * N < 10 * F + 10" by linarith
  have "2097152 \<le> T"
  proof (cases "10 dvd N")
    case False
    from b(2) [OF False] f assms(1) show ?thesis by linarith
  next
    case True
    then obtain k where k: "N = 10 * k" by (auto simp: dvd_def)
    with assms(1) have "\<not> k \<le> 299593" by linarith
    then have "299594 \<le> k" by simp
    with k have "2995940 \<le> N" by linarith
    with f b(1) show ?thesis by linarith
  qed
  then have "2097152 * MAX_TOKENS \<le> T * MAX_TOKENS" by (intro mult_le_mono1)
  then show ?thesis by (simp add: T_def MAX_TOKENS_def INT_MAX_def)
qed

lemma main_overflow:
  assumes "N = length [l \<leftarrow> lines. \<not> malformed l]" and "2995932 \<le> N" and "N < 2 ^ 31"
  shows "main e (Some lines) = Failed 1 \<or> main e (Some lines) = Undefined_behaviour"
proof (cases "env_granted e ''dataset'' 1000 \<and> env_granted e ''trainSet'' (train_size N)
               \<and> env_granted e ''testSet'' (N - train_size N)")
  case False
  have W: "0 < MAX_TOKENS" by (simp add: MAX_TOKENS_def)
  from loadAndSplitDataset_not_granted [OF False W assms(1)] show ?thesis
    by (simp add: main_def or_exit_def)
next
  case True
  have W: "0 < MAX_TOKENS" by (simp add: MAX_TOKENS_def)
  from True loadAndSplitDataset_returns [where granted = "env_granted e"
      and heap = "env_heap_posts e" and rnd = "env_shuffle_rand e", OF W assms(1,3)]
  obtain trainSet testSet where
    split: "loadAndSplitDataset MAX_TOKENS (env_granted e) (env_heap_posts e)
              (env_shuffle_rand e) (Some lines) =
              Returns (N, trainSet, testSet, train_size N, N - train_size N)"
    by blast
  from assms(2) have "2 \<le> N" by simp
  from train_size_pos [OF this assms(3)]
  have nz: "\<not> (train_size N = 0 \<or> N - train_size N = 0)" by simp
  from train_size_large [OF assms(2,3)]
  have "int_mul (train_size N) MAX_TOKENS = None" by (simp add: int_mul_def)
  then show ?thesis
    unfolding main_def split or_exit_Returns prod.case
    by (simp add: nz or_exit_safe_malloc or_undefined_def)
qed

text \<open>
  C2, as amended. With no record in the dataset, and more generally with fewer than two
  records (then one of the two parts of the split is empty), \<open>main\<close> reports the error and
  returns the exit status 1 before any stage runs. With two records or more, and fewer
  than 2995932 (so that the sizes \<^verbatim>\<open>trainSize * MAX_TOKENS\<close> and
  \<^verbatim>\<open>testSize * MAX_TOKENS\<close> are in the range of \<^verbatim>\<open>int\<close>), both parts are non-empty, so
  \<open>evaluate\<close> is only ever called with a positive number of samples: the run either ends
  with the exit status 1, when \<^verbatim>\<open>malloc\<close> refuses a block, or reports two accuracies that
  are numbers between 0 and 1, never a NaN; it reports them whenever every block is
  granted.
\<close>

theorem main_reports_error_or_accuracies:
  assumes "N = length [l \<leftarrow> lines. \<not> malformed l]" and "N < 2995932"
  shows "(N \<le> 1 \<longrightarrow> main e (Some lines) = Failed 1) \<and>
         (2 \<le> N \<longrightarrow> main e (Some lines) = Failed 1 \<or>
                    (\<exists>a b. main e (Some lines) = Reported (Fin a) (Fin b) \<and>
                           0 \<le> a \<and> a \<le> 1 \<and> 0 \<le> b \<and> b \<le> 1)) \<and>
         (2 \<le> N \<and> (\<forall>name sz. env_granted e name sz) \<longrightarrow>
            (\<exists>a b. main e (Some lines) = Reported (Fin a) (Fin b) \<and>
                   0 \<le> a \<and> a \<le> 1 \<and> 0 \<le> b \<and> b \<le> 1))"
proof -
  have W: "0 < MAX_TOKENS" by (simp add: MAX_TOKENS_def)
  from assms(2) have N31: "N < 2 ^ 31" by simp
  let ?T = "train_size N"
  let ?U = "N - train_size N"
  let ?loader = "env_granted e ''dataset'' 1000 \<and> env_granted e ''trainSet'' ?T
                   \<and> env_granted e ''testSet'' ?U"
  have refused: "main e (Some lines) = Failed 1" if "\<not> ?loader"
    using loadAndSplitDataset_not_granted [OF that W assms(1)]
    by (simp add: main_def or_exit_def)
  have returned: "\<exists>trainSet testSet.
      loadAndSplitDataset MAX_TOKENS (env_granted e) (env_heap_posts e) (env_shuffle_rand e)
        (Some lines) = Returns (N, trainSet, testSet, ?T, ?U) \<and>
      length trainSet = ?T \<and> length testSet = ?U \<and>
      (\<forall>p \<in> set trainSet. wf_post MAX_TOKENS p) \<and> (\<forall>p \<in> set testSet. wf_post MAX_TOKENS p)"
    if "?loader"
    using that loadAndSplitDataset_returns [where granted = "env_granted e"
      and heap = "env_heap_posts e" and rnd = "env_shuffle_rand e", OF W assms(1) N31]
    by blast
  have small: "main e (Some lines) = Failed 1" if "N \<le> 1"
  proof (cases "?loader")
    case False
    then show ?thesis by (rule refused)
  next
    case True
    from returned [OF True] obtain trainSet testSet where
      split: "loadAndSplitDataset MAX_TOKENS (env_granted e) (env_heap_posts e)
                (env_shuffle_rand e) (Some lines) = Returns (N, trainSet, testSet, ?T, ?U)"
      by blast
    from train_size_small [OF that] show ?thesis
      unfolding main_def split or_exit_Returns prod.case by simp
  qed
  have large: "\<exists>a b. 0 \<le> a \<and> a \<le> 1 \<and> 0 \<le> b \<and> b \<le> 1 \<and>
                 (main e (Some lines) = Failed 1 \<or> main e (Some lines) = Reported (Fin a) (Fin b)) \<and>
                 ((\<forall>name sz. env_granted e name sz) \<longrightarrow>
                    main e (Some lines) = Reported (Fin a) (Fin b))"
    if "2 \<le> N" and "?loader"
  proof -
    from returned [OF that(2)] obtain trainSet testSet where
      split: "loadAndSplitDataset MAX_TOKENS (env_granted e) (env_heap_posts e)
                (env_shuffle_rand e) (Some lines) = Returns (N, trainSet, testSet, ?T, ?U)"
      and len: "length trainSet = ?T" "length testSet = ?U"
      and wf: "\<forall>p \<in> set trainSet. wf_post MAX_TOKENS p" "\<forall>p \<in> set testSet. wf_post MAX_TOKENS p"
      by blast
    from train_size_pos [OF that(1) N31]
    have T: "0 < ?T" "0 < ?U" by simp_all
    from split_sizes_small [OF assms(2)] have "?T < 2 ^ 21" "?U < 2 ^ 21" by simp_all
    then have fits: "?T * MAX_TOKENS \<le> INT_MAX" "?U * MAX_TOKENS \<le> INT_MAX"
      "?T * NUM_FEATURES \<le> INT_MAX" "?U * NUM_FEATURES \<le> INT_MAX"
      "NUM_FEATURES * NUM_FEATURES \<le> INT_MAX"
      by (simp_all add: MAX_TOKENS_def NUM_FEATURES_def INT_MAX_def)
    define block where
      "block = map (env_heap_floats e ''trainWeights'') [0..<NUM_FEATURES * NUM_FEATURES]"
    have "NUM_FEATURES * NUM_FEATURES \<le> length block" by (simp add: block_def)
    from init_weights_loop_total [OF this fits(5), of "env_weights_rand e" 0]
    obtain weights where
      w: "init_weights (env_weights_rand e) block NUM_FEATURES = Some weights"
      "length weights = length block"
      by (auto simp: init_weights_def)
    then have wl: "NUM_FEATURES \<le> length weights"
      by (simp add: block_def NUM_FEATURES_def)
    have bl: "0 < length (replicate NUM_FEATURES (Fin 0))" by (simp add: NUM_FEATURES_def)
    from forward_pass [OF T(1) len(1) wf(1) _ wl bl _ _ fits(1),
        of "map (env_heap_floats e ''trainTokenIds'') [0..<?T * MAX_TOKENS]"
           "map (env_heap_floats e ''trainOutputs'') [0..<?T * NUM_FEATURES]"
           "map (\<lambda>i. label (trainSet ! i)) [0..<?T]" "env_char_signed e"]
    obtain tokens scores activated a where
      tr: "tokenizeAndEmbed (env_char_signed e) MAX_TOKENS trainSet
             (map (env_heap_floats e ''trainTokenIds'') [0..<?T * MAX_TOKENS]) ?T = Some tokens"
          "denseLayer tokens weights (replicate NUM_FEATURES (Fin 0))
             (map (env_heap_floats e ''trainOutputs'') [0..<?T * NUM_FEATURES])
             ?T NUM_FEATURES = Some scores"
          "sigmoidActivation scores ?T = Some activated"
          "evaluate activated (map (\<lambda>i. label (trainSet ! i)) [0..<?T]) ?T = Some (Fin a)"
          "0 \<le> a" "a \<le> 1"
      by auto
    from forward_pass [OF T(2) len(2) wf(2) _ wl bl _ _ fits(2),
        of "map (env_heap_floats e ''testTokenIds'') [0..<?U * MAX_TOKENS]"
           "map (env_heap_floats e ''testOutputs'') [0..<?U * NUM_FEATURES]"
           "map (\<lambda>i. label (testSet ! i)) [0..<?U]" "env_char_signed e"]
    obtain tokens' scores' activated' b where
      te: "tokenizeAndEmbed (env_char_signed e) MAX_TOKENS testSet
             (map (env_heap_floats e ''testTokenIds'') [0..<?U * MAX_TOKENS]) ?U = Some tokens'"
          "denseLayer tokens' weights (replicate NUM_FEATURES (Fin 0))
             (map (env_heap_floats e ''testOutputs'') [0..<?U * NUM_FEATURES])
             ?U NUM_FEATURES = Some scores'"
          "sigmoidActivation scores' ?U = Some activated'"
          "evaluate activated' (map (\<lambda>i. label (testSet ! i)) [0..<?U]) ?U = Some (Fin b)"
          "0 \<le> b" "b \<le> 1"
      by auto
    from T have nz: "\<not> (?T = 0 \<or> ?U = 0)" by simp
    have run: "main e (Some lines) =
        (if env_granted e ''trainLabels'' ?T
            \<and> env_granted e ''trainTokenIds'' (?T * MAX_TOKENS)
            \<and> env_granted e ''trainWeights'' (NUM_FEATURES * NUM_FEATURES)
            \<and> env_granted e ''trainBiases'' NUM_FEATURES
            \<and> env_granted e ''trainOutputs'' (?T * NUM_FEATURES)
            \<and> env_granted e ''testLabels'' ?U
            \<and> env_granted e ''testTokenIds'' (?U * MAX_TOKENS)
            \<and> env_granted e ''testOutputs'' (?U * NUM_FEATURES)
         then Reported (Fin a) (Fin b) else Failed 1)"
      unfolding main_def split or_exit_Returns prod.case Let_def
        int_mul_Some [OF fits(1)] int_mul_Some [OF fits(2)] int_mul_Some [OF fits(3)]
        int_mul_Some [OF fits(4)] int_mul_Some [OF fits(5)] or_undefined_Some
        or_exit_safe_malloc
      by (simp only: nz if_False block_def [symmetric] w(1) tr(1-4) te(1-4) or_undefined_Some
            if_True split: if_split) simp
    from run tr(5,6) te(5,6) show ?thesis by auto
  qed
  show ?thesis
  proof (cases "?loader")
    case False
    from refused [OF False] small False show ?thesis by auto
  next
    case True
    from large [OF _ True] small show ?thesis by blast
  qed
qed

theorem main_reports_error_or_accuracies_witness:
  "main \<lparr>env_char_signed = True, env_shuffle_rand = (\<lambda>k. k), env_weights_rand = (\<lambda>k. k),
         env_granted = (\<lambda>name sz. True),
         env_heap_posts = (\<lambda>k. \<lparr>text_buf = [], label = 7\<rparr>), env_heap_ints = (\<lambda>name k. 0),
         env_heap_floats = (\<lambda>name k. Fin 0)\<rparr>
     (Some [''4,1,2'']) = Failed 1 \<and>
   (\<exists>a b. main \<lparr>env_char_signed = True, env_shuffle_rand = (\<lambda>k. k), env_weights_rand = (\<lambda>k. k),
         env_granted = (\<lambda>name sz. True),
         env_heap_posts = (\<lambda>k. \<lparr>text_buf = [], label = 7\<rparr>), env_heap_ints = (\<lambda>name k. 0),
         env_heap_floats = (\<lambda>name k. Fin 0)\<rparr>
     (Some [''0,1,2,3,4,bad'', ''4,1,2,3,4,good'']) = Reported (Fin a) (Fin b))"
proof -
  have n0: "0 = length [l \<leftarrow> [''4,1,2'']. \<not> malformed l]"
    by (simp add: load_eval)
  have n2: "2 = length [l \<leftarrow> [''0,1,2,3,4,bad'', ''4,1,2,3,4,good'']. \<not> malformed l]"
    by (simp add: load_eval)
  define e where "e = \<lparr>env_char_signed = True, env_shuffle_rand = (\<lambda>k. k),
    env_weights_rand = (\<lambda>k. k), env_granted = (\<lambda>name sz. True),
    env_heap_posts = (\<lambda>k. \<lparr>text_buf = [], label = 7\<rparr>), env_heap_ints = (\<lambda>name k. 0),
    env_heap_floats = (\<lambda>name k. Fin 0)\<rparr>"
  have g: "\<forall>name sz. env_granted e name sz" by (simp add: e_def)
  from main_reports_error_or_accuracies [OF n0, of e]
  have "main e (Some [''4,1,2'']) = Failed 1" by simp
  moreover from main_reports_error_or_accuracies [OF n2, of e] g
  have "\<exists>a b. main e (Some [''0,1,2,3,4,bad'', ''4,1,2,3,4,good'']) = Reported (Fin a) (Fin b)"
    by auto
  ultimately show ?thesis unfolding e_def by simp
qed

text \<open>
  C2 as stated claims that \<open>evaluate\<close> itself treats zero samples as an error. It has no
  such check: called with zero samples it divides \<open>0.0\<close> by \<open>0.0\<close> and returns a NaN.
\<close>

theorem evaluate_zero_samples_NaN: "evaluate [] [] 0 = Some NaN"
  by (simp add: evaluate_def count_correct.simps float_div_def fdiv_def int_to_float_def
       round32_0)

end
